theory Spec2Isabelle
  imports Main "HOL-Library.Log_Nat"
begin

section \<open>Characters and the constants of Python's string module\<close>

text \<open>
  A Python string is a sequence of code points. The development covers texts whose code
  points are below 256 (ASCII and Latin-1), modelled by \<^typ>\<open>char\<close>; on these
  \<^verbatim>\<open>str.lower\<close> maps one character to one character. Outside this range it need not:
  the lowercase of U+0130 has two code points, and the filter then yields a string of two
  characters as one item. What is proved below of the filter and of built automata is
  proved of texts in this range.
\<close>

definition digits :: string where
  "digits = map char_of [48 ..< (58::nat)]"

definition ascii_lowercase :: string where
  "ascii_lowercase = map char_of [97 ..< (123::nat)]"

definition ascii_uppercase :: string where
  "ascii_uppercase = map char_of [65 ..< (91::nat)]"

definition ascii_letters :: string where
  "ascii_letters = ascii_lowercase @ ascii_uppercase"

definition punctuation :: string where
  "punctuation = map char_of ([33 ..< 48] @ [58 ..< 65] @ [91 ..< 97] @ [123 ..< (127::nat)])"

text \<open>\<^verbatim>\<open>string.whitespace\<close> is space, tab, newline, return, vertical tab, form feed.\<close>

definition whitespace :: string where
  "whitespace = map char_of [32, 9, 10, 13, 11, (12::nat)]"

definition printable :: string where
  "printable = digits @ ascii_letters @ punctuation @ whitespace"

text \<open>\<^verbatim>\<open>s.index(c)\<close>: position of the first occurrence (the source only calls it on a
  character that occurs).\<close>

fun str_index :: "string \<Rightarrow> char \<Rightarrow> nat" where
  "str_index [] c = 0"
| "str_index (x # xs) c = (if x = c then 0 else Suc (str_index xs c))"

text \<open>\<^verbatim>\<open>non_printable = string.printable[string.printable.index(" ") + 1 :]\<close>\<close>

definition non_printable :: string where
  "non_printable = drop (str_index printable (CHR '' '') + 1) printable"

definition newline :: char where
  "newline = CHR 0x0A"

text \<open>\<^verbatim>\<open>str.lower\<close> on one character with code point below 256: the ASCII capitals and
  the Latin-1 capitals U+00C0 to U+00DE (without the multiplication sign U+00D7) move up
  by 32, every other character is unchanged.\<close>

definition lower :: "char \<Rightarrow> char" where
  "lower c =
     (let n = (of_char c :: nat)
      in if (65 \<le> n \<and> n \<le> 90) \<or> (192 \<le> n \<and> n \<le> 222 \<and> n \<noteq> 215)
         then char_of (n + 32) else c)"

section \<open>The character filter: next_character\<close>

text \<open>
  A file enters the model as the sequence of its decoded characters. \<^verbatim>\<open>open\<close> in text mode
  (with the default \<^verbatim>\<open>newline=None\<close>) reads a carriage return followed by a newline, and
  a carriage return alone, as one newline: \<open>read_text\<close> is what \<^verbatim>\<open>file.read()\<close> returns.
\<close>

fun read_text :: "string \<Rightarrow> string" where
  "read_text [] = []"
| "read_text [c] = [if c = CHR 0x0D then newline else c]"
| "read_text (c # d # cs) =
     (if c = CHR 0x0D then
        (if d = newline then newline # read_text cs else newline # read_text (d # cs))
      else c # read_text (d # cs))"

text \<open>
  \<open>nc_loop\<close> is the body of the \<^verbatim>\<open>for char in file.read()\<close> loop, with the two local variables
  \<^verbatim>\<open>first_char\<close> and \<^verbatim>\<open>last_char\<close> passed along. The result is the list of the
  values yielded inside the loop, and \<^verbatim>\<open>first_char\<close> as it is when the loop ends.
\<close>

fun nc_loop :: "bool \<Rightarrow> char option \<Rightarrow> char option \<Rightarrow> string \<Rightarrow> string \<times> char option" where
  "nc_loop ignore_case first_char last_char [] = ([], first_char)"
| "nc_loop ignore_case first_char last_char (ch # rest) =
     (if ch \<notin> set non_printable then
        (let char = (if \<not> ignore_case then lower ch else ch);
             first_char' = (if first_char = None then Some char else first_char);
             r = nc_loop ignore_case first_char' (Some char) rest
         in (char # fst r, snd r))
      else if ch = newline \<and> Some ch \<noteq> last_char then
        (let first_char' = (if first_char = None then Some ch else first_char);
             r = nc_loop ignore_case first_char' (Some newline) rest
         in (CHR '' '' # fst r, snd r))
      else nc_loop ignore_case first_char last_char rest)"

text \<open>The characters yielded inside the loop (the filtered character sequence), for a
  file with the characters \<open>text\<close>.\<close>

definition filtered :: "string \<Rightarrow> bool \<Rightarrow> string" where
  "filtered text ignore_case = fst (nc_loop ignore_case None None (read_text text))"

text \<open>The value of the final \<^verbatim>\<open>yield first_char\<close>.\<close>

definition sentinel :: "string \<Rightarrow> bool \<Rightarrow> char option" where
  "sentinel text ignore_case = snd (nc_loop ignore_case None None (read_text text))"

text \<open>Everything the generator yields, in order: the generator is finite, so it is the
  list of its items. \<^verbatim>\<open>None\<close> can only be the last item.\<close>

definition next_character :: "string \<Rightarrow> bool \<Rightarrow> char option list" where
  "next_character text ignore_case =
     map Some (filtered text ignore_case) @ [sentinel text ignore_case]"

text \<open>
  The filter described declaratively, for comparison with the loop: a carriage return,
  alone or followed by a newline, counts as one newline; the characters tab, vertical tab
  and form feed are removed; a newline that follows a newline (with nothing but removed
  characters in between) is removed; every remaining newline becomes a space; every other
  character is kept, lowercased when \<^verbatim>\<open>ignore_case\<close> is false.
\<close>

fun squeeze_newlines :: "bool \<Rightarrow> string \<Rightarrow> string" where
  "squeeze_newlines after_nl [] = []"
| "squeeze_newlines after_nl (c # cs) =
     (if c = newline then
        (if after_nl then squeeze_newlines True cs else c # squeeze_newlines True cs)
      else c # squeeze_newlines False cs)"

definition filter_described :: "string \<Rightarrow> bool \<Rightarrow> string" where
  "filter_described text ignore_case =
     map (\<lambda>c. if c = newline then CHR '' '' else if ignore_case then c else lower c)
       (squeeze_newlines False
          (filter (\<lambda>c. c \<notin> set [CHR 0x09, CHR 0x0B, CHR 0x0C]) (read_text text)))"

section \<open>Errors\<close>

text \<open>The Python exceptions that the modelled code can raise. The program defines no
  exception class of its own and has no \<^verbatim>\<open>try\<close>: every exception reaches the caller.
  \<open>NotModelled\<close> is no exception of Python: it stands for a run on a loaded JSON document
  that has not the shape \<^verbatim>\<open>save_automaton\<close> writes, which this development does not
  follow further.\<close>

datatype error =
    TypeError
  | StopIteration
  | KeyError string
  | ValueError
  | IndexError
  | ZeroDivisionError
  | OverflowError
  | FileNotFoundError
  | JSONDecodeError
  | MemoryError
  | NotModelled

section \<open>Floating point: the double nearest to a rational\<close>

text \<open>
  A finite Python float is modelled by its exact rational value. \<open>pow2 k\<close> is \<open>2\<close> to the
  power \<open>k\<close> for an integer \<open>k\<close>; \<open>ilog2 x\<close> is the exponent \<open>e\<close> with
  \<open>2\<^sup>e \<le> x < 2\<^sup>e\<^sup>+\<^sup>1\<close> for positive \<open>x\<close>; \<open>round_double\<close> rounds to the nearest
  double (53 bits of precision, ties to even, gradual underflow below \<open>2\<^sup>-\<^sup>1\<^sup>0\<^sup>2\<^sup>2\<close>).
  A result of magnitude \<open>2\<^sup>1\<^sup>0\<^sup>2\<^sup>4\<close> or more stands for an overflow.
\<close>

definition pow2 :: "int \<Rightarrow> rat" where
  "pow2 k = (if 0 \<le> k then 2 ^ nat k else 1 / 2 ^ nat (- k))"

definition ilog2 :: "rat \<Rightarrow> int" where
  "ilog2 x =
     (let (a, b) = quotient_of x; d = bitlen a - bitlen b
      in if pow2 d \<le> x then d else d - 1)"

definition round_half_even :: "rat \<Rightarrow> int" where
  "round_half_even y =
     (let f = \<lfloor>y\<rfloor>; r = y - of_int f
      in if r < 1 / 2 then f else if 1 / 2 < r then f + 1
         else if even f then f else f + 1)"

definition round_double :: "rat \<Rightarrow> rat" where
  "round_double x =
     (if x = 0 then 0
      else (let k = max (ilog2 \<bar>x\<bar> - 52) (- 1074)
            in of_int (round_half_even (x / pow2 k)) * pow2 k))"

definition overflows :: "rat \<Rightarrow> bool" where
  "overflows x = (pow2 1024 \<le> \<bar>x\<bar>)"

text \<open>\<^verbatim>\<open>a / b\<close> on two Python ints: the correctly rounded quotient.\<close>

definition py_truediv :: "int \<Rightarrow> int \<Rightarrow> error + rat" where
  "py_truediv a b =
     (if b = 0 then Inl ZeroDivisionError
      else (let q = round_double (of_int a / of_int b)
            in if overflows q then Inl OverflowError else Inr q))"

section \<open>The automaton builder: create_automaton and normalize_automaton\<close>

text \<open>
  A Python dict keeps its keys in insertion order: it is an association list with
  distinct keys. The raw count table is a \<^verbatim>\<open>defaultdict\<close> of \<^verbatim>\<open>defaultdict(int)\<close>.
\<close>

type_synonym transitions = "(string \<times> int) list"
type_synonym counts = "(string \<times> transitions) list"
type_synonym automaton = "(string \<times> string list \<times> rat list) list"

text \<open>\<^verbatim>\<open>d[k] = f(d[k])\<close> on a \<^verbatim>\<open>defaultdict\<close>: a missing key is first inserted, at the
  end, with the default value.\<close>

fun dd_update :: "'v \<Rightarrow> ('v \<Rightarrow> 'v) \<Rightarrow> ('k \<times> 'v) list \<Rightarrow> 'k \<Rightarrow> ('k \<times> 'v) list" where
  "dd_update dflt f [] k = [(k, f dflt)]"
| "dd_update dflt f ((k', v) # kvs) k =
     (if k' = k then (k', f v) # kvs else (k', v) # dd_update dflt f kvs k)"

text \<open>\<^verbatim>\<open>automaton[curr][char] += 1\<close>\<close>

definition incr :: "counts \<Rightarrow> string \<Rightarrow> string \<Rightarrow> counts" where
  "incr automaton cur char =
     dd_update [] (\<lambda>tr. dd_update 0 (\<lambda>n. n + 1) tr char) automaton cur"

text \<open>\<^verbatim>\<open>for _ in range(order): curr += next(gen)\<close>. The result is \<^verbatim>\<open>curr\<close> (written
  \<open>cur\<close> below) and what is left of the generator. \<^verbatim>\<open>next\<close> on the exhausted generator raises StopIteration;
  \<^verbatim>\<open>curr += None\<close> raises TypeError. \<^verbatim>\<open>range(order)\<close> is empty for \<open>order \<le> 0\<close>.\<close>

fun prime :: "nat \<Rightarrow> string \<Rightarrow> char option list \<Rightarrow> error + (string \<times> char option list)" where
  "prime 0 cur gen = Inr (cur, gen)"
| "prime (Suc n) cur [] = Inl StopIteration"
| "prime (Suc n) cur (None # gen) = Inl TypeError"
| "prime (Suc n) cur (Some c # gen) = prime n (cur @ [c]) gen"

text \<open>\<^verbatim>\<open>for char in gen: automaton[curr][char] += 1; curr = curr[1:] + char\<close>.
  With \<^verbatim>\<open>char\<close> being \<^verbatim>\<open>None\<close> the concatenation raises TypeError.\<close>

fun count_loop :: "counts \<Rightarrow> string \<Rightarrow> char option list \<Rightarrow> error + counts" where
  "count_loop automaton cur [] = Inr automaton"
| "count_loop automaton cur (None # gen) = Inl TypeError"
| "count_loop automaton cur (Some c # gen) =
     count_loop (incr automaton cur [c]) (drop 1 cur @ [c]) gen"

text \<open>A list comprehension whose element expression can raise.\<close>

fun map_err :: "('a \<Rightarrow> error + 'b) \<Rightarrow> 'a list \<Rightarrow> error + 'b list" where
  "map_err f [] = Inr []"
| "map_err f (x # xs) =
     (case f x of Inl e \<Rightarrow> Inl e
      | Inr y \<Rightarrow> (case map_err f xs of Inl e \<Rightarrow> Inl e | Inr ys \<Rightarrow> Inr (y # ys)))"

definition normalize_entry :: "transitions \<Rightarrow> error + (string list \<times> rat list)" where
  "normalize_entry transitions =
     (let total_occ = sum_list (map snd transitions)
      in case map_err (\<lambda>v. py_truediv v total_occ) (map snd transitions) of
           Inl e \<Rightarrow> Inl e
         | Inr ps \<Rightarrow> Inr (map fst transitions, ps))"

definition normalize_automaton :: "counts \<Rightarrow> error + automaton" where
  "normalize_automaton automaton =
     map_err (\<lambda>(state, transitions).
        case normalize_entry transitions of Inl e \<Rightarrow> Inl e | Inr r \<Rightarrow> Inr (state, r)) automaton"

definition create_automaton :: "int \<Rightarrow> string \<Rightarrow> bool \<Rightarrow> error + automaton" where
  "create_automaton order text ignore_case =
     (case prime (nat order) [] (next_character text ignore_case) of
        Inl e \<Rightarrow> Inl e
      | Inr (cur, gen) \<Rightarrow>
          (case count_loop [] cur gen of
             Inl e \<Rightarrow> Inl e
           | Inr automaton \<Rightarrow> normalize_automaton automaton))"

section \<open>The random walk: random.choices and the loop of generate\<close>

text \<open>
  The pseudo-random number generator belongs to Python's library, so its two operations
  are parameters: \<open>rng_seed s\<close> is the generator state that \<^verbatim>\<open>random.seed(s)\<close> installs for
  an integer \<open>s\<close>, and \<open>rng_random g\<close> is the float in \<open>[0, 1)\<close> that \<^verbatim>\<open>random.random()\<close>
  returns in state \<open>g\<close>, with the next state. The process holds the state of the global
  generator and the state that \<^verbatim>\<open>random.seed(None)\<close> would install from the operating
  system's entropy.
\<close>

record 'g rng =
  rng_seed :: "int \<Rightarrow> 'g"
  rng_random :: "'g \<Rightarrow> rat \<times> 'g"

record 'g process =
  rng_state :: 'g
  os_entropy :: 'g

text \<open>\<^verbatim>\<open>random.seed(seed)\<close>\<close>

definition random_seed :: "'g rng \<Rightarrow> int option \<Rightarrow> 'g process \<Rightarrow> 'g process" where
  "random_seed R seed p =
     (case seed of
        None \<Rightarrow> p\<lparr>rng_state := os_entropy p\<rparr>
      | Some s \<Rightarrow> p\<lparr>rng_state := rng_seed R s\<rparr>)"

text \<open>\<^verbatim>\<open>itertools.accumulate\<close> on floats: the running sums, each rounded. \<open>None\<close> stands
  for a running sum that overflowed to an infinity.\<close>

fun accumulate_from :: "rat \<Rightarrow> rat list \<Rightarrow> rat list option" where
  "accumulate_from tot [] = Some []"
| "accumulate_from tot (w # ws) =
     (let tot' = round_double (tot + w)
      in if overflows tot' then None
         else map_option ((#) tot') (accumulate_from tot' ws))"

definition accumulate :: "rat list \<Rightarrow> rat list option" where
  "accumulate weights =
     (case weights of [] \<Rightarrow> Some []
      | w # ws \<Rightarrow> map_option ((#) w) (accumulate_from w ws))"

text \<open>\<^verbatim>\<open>bisect.bisect(a, x, lo, hi)\<close>\<close>

function bisect :: "rat list \<Rightarrow> rat \<Rightarrow> nat \<Rightarrow> nat \<Rightarrow> nat" where
  "bisect a x lo hi =
     (if lo < hi then
        (let mid = (lo + hi) div 2
         in if x < a ! mid then bisect a x lo mid else bisect a x (mid + 1) hi)
      else lo)"
  by pat_completeness auto
termination
  by (relation "measure (\<lambda>(a, x, lo, hi). hi - lo)") auto

text \<open>
  \<^verbatim>\<open>random.choices(population, weights)[0]\<close>, after CPython's \<^verbatim>\<open>random.py\<close>: the
  cumulative weights are computed, their number must be that of the population
  (ValueError), the total is the last of them (IndexError on the empty list), it must be
  positive and finite (ValueError; a total that overflowed is not finite), and the
  element chosen is the one at the position where \<^verbatim>\<open>random() * total\<close> bisects the first
  \<open>n - 1\<close> cumulative weights.
\<close>

definition choices :: "'g rng \<Rightarrow> 'g \<Rightarrow> string list \<Rightarrow> rat list \<Rightarrow> error + (string \<times> 'g)" where
  "choices R g population weights =
     (let n = length population
      in case accumulate weights of
           None \<Rightarrow> Inl ValueError
         | Some cum_weights \<Rightarrow>
             if length cum_weights \<noteq> n then Inl ValueError
             else if cum_weights = [] then Inl IndexError
             else (let tot = last cum_weights
                   in if tot \<le> 0 then Inl ValueError
                      else (let (r, g') = rng_random R g;
                                i = bisect cum_weights (round_double (r * tot)) 0 (n - 1)
                            in Inr (population ! i, g'))))"

text \<open>
  The \<^verbatim>\<open>while index < length\<close> loop of \<^verbatim>\<open>generate\<close>. \<^verbatim>\<open>automaton[state]\<close> on a missing key
  raises KeyError. \<^verbatim>\<open>res\<close> is the list of \<open>length\<close> slots, each \<^verbatim>\<open>None\<close> until it is
  assigned.
\<close>

function gen_loop ::
  "'g rng \<Rightarrow> automaton \<Rightarrow> int \<Rightarrow> 'g \<Rightarrow> string \<Rightarrow> string option list \<Rightarrow> int
     \<Rightarrow> error + string option list" where
  "gen_loop R automaton len g state res index =
     (if index < len then
        (case map_of automaton state of
           None \<Rightarrow> Inl (KeyError state)
         | Some (population, weights) \<Rightarrow>
             (case choices R g population weights of
                Inl e \<Rightarrow> Inl e
              | Inr (c, g') \<Rightarrow>
                  gen_loop R automaton len g' (drop 1 state @ c)
                    (res[nat index := Some c]) (index + 1)))
      else Inr res)"
  by pat_completeness auto
termination
  by (relation "measure (\<lambda>(R, automaton, len, g, state, res, index). nat (len - index))")
    auto

text \<open>\<^verbatim>\<open>"".join(res)\<close>: TypeError if an item is \<^verbatim>\<open>None\<close>.\<close>

fun join :: "string option list \<Rightarrow> error + string" where
  "join [] = Inr []"
| "join (None # xs) = Inl TypeError"
| "join (Some s # xs) = (case join xs of Inl e \<Rightarrow> Inl e | Inr t \<Rightarrow> Inr (s @ t))"

section \<open>Saving and loading: save_automaton and import_automaton\<close>

text \<open>
  Python values, as far as an automaton is made of them, and JSON documents. The
  \<^verbatim>\<open>json\<close> module belongs to Python's library; \<open>json_dumps\<close> and \<open>json_loads\<close> follow its
  documented conversion table: a dict is an object and back, a list and a tuple are both
  an array, an array is a list, a str is a string and back, a float is a number and back
  (\<^verbatim>\<open>repr\<close> of a finite float reads back as the same float).
\<close>

datatype pyval =
    PStr string
  | PFloat rat
  | PList "pyval list"
  | PTuple "pyval list"
  | PDict "(string \<times> pyval) list"

datatype json =
    JString string
  | JNumber rat
  | JArray "json list"
  | JObject "(string \<times> json) list"

fun json_dumps :: "pyval \<Rightarrow> json" where
  "json_dumps (PStr s) = JString s"
| "json_dumps (PFloat x) = JNumber x"
| "json_dumps (PList xs) = JArray (map json_dumps xs)"
| "json_dumps (PTuple xs) = JArray (map json_dumps xs)"
| "json_dumps (PDict kvs) = JObject (map (map_prod id json_dumps) kvs)"

fun json_loads :: "json \<Rightarrow> pyval" where
  "json_loads (JString s) = PStr s"
| "json_loads (JNumber x) = PFloat x"
| "json_loads (JArray xs) = PList (map json_loads xs)"
| "json_loads (JObject kvs) = PDict (map (map_prod id json_loads) kvs)"

text \<open>The automaton as the Python value that \<^verbatim>\<open>normalize_automaton\<close> builds: a dict
  from each state to the tuple of the list of successors and the list of frequencies.\<close>

definition automaton_value :: "automaton \<Rightarrow> pyval" where
  "automaton_value a =
     PDict (map (\<lambda>(state, succs, probs).
                   (state, PTuple [PList (map PStr succs), PList (map PFloat probs)])) a)"

text \<open>The same with each tuple replaced by a list.\<close>

definition automaton_value_lists :: "automaton \<Rightarrow> pyval" where
  "automaton_value_lists a =
     PDict (map (\<lambda>(state, succs, probs).
                   (state, PList [PList (map PStr succs), PList (map PFloat probs)])) a)"

text \<open>Python's \<^verbatim>\<open>==\<close> on these values: a tuple never equals a list; two dicts are equal
  when they have the same keys with equal values, in any order.\<close>

fun py_eq :: "pyval \<Rightarrow> pyval \<Rightarrow> bool" where
  "py_eq (PStr a) (PStr b) = (a = b)"
| "py_eq (PFloat a) (PFloat b) = (a = b)"
| "py_eq (PList xs) (PList ys) = list_all2 py_eq xs ys"
| "py_eq (PTuple xs) (PTuple ys) = list_all2 py_eq xs ys"
| "py_eq (PDict xs) (PDict ys) =
     (length xs = length ys \<and>
      list_all (\<lambda>(k, v). case map_of ys k of None \<Rightarrow> False | Some v' \<Rightarrow> py_eq v v') xs)"
| "py_eq _ _ = False"

text \<open>What a reader of the automaton sees: the keys in order, and for each key the
  successors and the frequencies, whether the pair is a tuple or a list (the generator
  unpacks it with \<^verbatim>\<open>*automaton[state]\<close>, which accepts both).\<close>

fun str_of :: "pyval \<Rightarrow> string option" where
  "str_of (PStr s) = Some s"
| "str_of _ = None"

fun float_of :: "pyval \<Rightarrow> rat option" where
  "float_of (PFloat x) = Some x"
| "float_of _ = None"

fun all_some :: "'a option list \<Rightarrow> 'a list option" where
  "all_some [] = Some []"
| "all_some (None # xs) = None"
| "all_some (Some x # xs) = map_option ((#) x) (all_some xs)"

fun items_of :: "pyval \<Rightarrow> pyval list option" where
  "items_of (PList xs) = Some xs"
| "items_of (PTuple xs) = Some xs"
| "items_of _ = None"

definition entry_of :: "pyval \<Rightarrow> (string list \<times> rat list) option" where
  "entry_of v =
     (case items_of v of
        Some [s, w] \<Rightarrow>
          (case (items_of s, items_of w) of
             (Some ss, Some ws) \<Rightarrow>
               (case (all_some (map str_of ss), all_some (map float_of ws)) of
                  (Some succs, Some probs) \<Rightarrow> Some (succs, probs)
                | _ \<Rightarrow> None)
           | _ \<Rightarrow> None)
      | _ \<Rightarrow> None)"

fun contents_of :: "pyval \<Rightarrow> automaton option" where
  "contents_of (PDict kvs) =
     all_some (map (\<lambda>(k, v). map_option (Pair k) (entry_of v)) kvs)"
| "contents_of _ = None"

text \<open>
  The text that \<^verbatim>\<open>json.dumps(automaton, indent=4, ensure_ascii=False)\<close> returns for a
  document: a string between double quotes, with the double quote, the backslash and the
  control characters below U+0020 escaped; a float as its \<^verbatim>\<open>repr\<close>, which belongs to
  Python and is the parameter \<open>float_repr\<close>; the items of an array or an object one per
  line, indented by four spaces per level, separated by a comma, a key and its value by a
  colon and a space; the empty array and the empty object without a line break.
\<close>

definition hex_digit :: "nat \<Rightarrow> char" where
  "hex_digit n = ''0123456789abcdef'' ! n"

definition escape_char :: "char \<Rightarrow> string" where
  "escape_char c =
     (if c = CHR 0x22 then [CHR 0x5C, CHR 0x22]
      else if c = CHR 0x5C then [CHR 0x5C, CHR 0x5C]
      else if c = CHR 0x0A then [CHR 0x5C, CHR ''n'']
      else if c = CHR 0x0D then [CHR 0x5C, CHR ''r'']
      else if c = CHR 0x09 then [CHR 0x5C, CHR ''t'']
      else if c = CHR 0x08 then [CHR 0x5C, CHR ''b'']
      else if c = CHR 0x0C then [CHR 0x5C, CHR ''f'']
      else if (of_char c :: nat) < 32 then
        [CHR 0x5C, CHR ''u'', CHR ''0'', CHR ''0'',
         hex_digit (of_char c div 16), hex_digit (of_char c mod 16)]
      else [c])"

definition json_string :: "string \<Rightarrow> string" where
  "json_string s = [CHR 0x22] @ concat (map escape_char s) @ [CHR 0x22]"

definition newline_indent :: "nat \<Rightarrow> string" where
  "newline_indent level = newline # replicate (4 * level) (CHR '' '')"

fun join_with :: "string \<Rightarrow> string list \<Rightarrow> string" where
  "join_with sep [] = []"
| "join_with sep [x] = x"
| "join_with sep (x # y # ys) = x @ sep @ join_with sep (y # ys)"

fun json_text :: "(rat \<Rightarrow> string) \<Rightarrow> nat \<Rightarrow> json \<Rightarrow> string" where
  "json_text float_repr level (JString s) = json_string s"
| "json_text float_repr level (JNumber x) = float_repr x"
| "json_text float_repr level (JArray xs) =
     (if xs = [] then ''[]''
      else ''['' @ newline_indent (Suc level)
           @ join_with ('','' @ newline_indent (Suc level))
               (map (json_text float_repr (Suc level)) xs)
           @ newline_indent level @ '']'')"
| "json_text float_repr level (JObject kvs) =
     (if kvs = [] then ''{}''
      else ''{'' @ newline_indent (Suc level)
           @ join_with ('','' @ newline_indent (Suc level))
               (map (\<lambda>kv. json_string (fst kv) @ '': ''
                             @ json_text float_repr (Suc level) (snd kv)) kvs)
           @ newline_indent level @ ''}'')"

text \<open>
  \<^verbatim>\<open>Path.name\<close> and \<^verbatim>\<open>Path.stem\<close>. A path is split at its slashes; empty components and
  components that are a single dot are dropped, as \<^verbatim>\<open>pathlib\<close> does; the name is the last
  component left (empty when there is none), and the stem is the name without its last
  suffix (a leading or a trailing dot starts no suffix).
\<close>

fun split_at :: "char \<Rightarrow> string \<Rightarrow> string list" where
  "split_at sep [] = [[]]"
| "split_at sep (c # cs) =
     (if c = sep then [] # split_at sep cs
      else (case split_at sep cs of
              [] \<Rightarrow> [[c]]
            | w # ws \<Rightarrow> (c # w) # ws))"

definition path_name :: "string \<Rightarrow> string" where
  "path_name p =
     (case filter (\<lambda>s. s \<noteq> [] \<and> s \<noteq> ''.'') (split_at (CHR ''/'') p) of
        [] \<Rightarrow> []
      | c # cs \<Rightarrow> last (c # cs))"

definition stem :: "string \<Rightarrow> string" where
  "stem p =
     (let name = path_name p;
          ext = takeWhile (\<lambda>c. c \<noteq> CHR ''.'') (rev name)
      in if CHR ''.'' \<in> set name \<and> length ext + 1 < length name \<and> ext \<noteq> []
         then take (length name - length ext - 1) name else name)"

text \<open>
  The files, by path as the program spells it (two spellings of one file are two paths
  here). A file is the sequence of its characters, together with what \<^verbatim>\<open>json.loads\<close>
  makes of them: a document, or nothing when it raises JSONDecodeError. The parser
  belongs to Python, so its result is part of the description of a file.
\<close>

record disk_file =
  file_text :: string
  file_json :: "json option"

type_synonym files = "string \<rightharpoonup> disk_file"

definition save_path :: "string \<Rightarrow> string" where
  "save_path filename = ''json/'' @ stem filename @ ''.json''"

text \<open>The file that \<^verbatim>\<open>file.write(json.dumps(automaton, indent=4, ensure_ascii=False))\<close>
  leaves: its characters are the text of the document, and \<^verbatim>\<open>json.loads\<close> reads the
  document back from them.\<close>

definition json_file :: "(rat \<Rightarrow> string) \<Rightarrow> pyval \<Rightarrow> disk_file" where
  "json_file float_repr v =
     \<lparr>file_text = json_text float_repr 0 (json_dumps v), file_json = Some (json_dumps v)\<rparr>"

text \<open>\<^verbatim>\<open>save_automaton\<close> creates the folder \<^verbatim>\<open>json\<close> when it is missing and writes, or
  overwrites, the file named after the stem of the source file.\<close>

definition save_automaton :: "(rat \<Rightarrow> string) \<Rightarrow> files \<Rightarrow> pyval \<Rightarrow> string \<Rightarrow> files" where
  "save_automaton float_repr fs automaton filename =
     fs(save_path filename \<mapsto> json_file float_repr automaton)"

definition import_automaton :: "files \<Rightarrow> string \<Rightarrow> error + pyval" where
  "import_automaton fs filename =
     (case fs filename of
        None \<Rightarrow> Inl FileNotFoundError
      | Some f \<Rightarrow>
          (case file_json f of
             None \<Rightarrow> Inl JSONDecodeError
           | Some doc \<Rightarrow> Inr (json_loads doc)))"

section \<open>The entry point: generate\<close>

text \<open>
  The \<^verbatim>\<open>if raw: ... else: ...\<close> of \<^verbatim>\<open>generate\<close>, without the export. With \<^verbatim>\<open>raw\<close> the
  automaton is built from the text of the file; opening a missing file raises
  FileNotFoundError. Without \<^verbatim>\<open>raw\<close> it is what \<^verbatim>\<open>import_automaton\<close> returns, read as an
  automaton.
\<close>

definition obtain_automaton ::
  "files \<Rightarrow> int \<Rightarrow> string \<Rightarrow> bool \<Rightarrow> bool \<Rightarrow> error + automaton" where
  "obtain_automaton fs order filename raw ignore_case =
     (if raw then
        (case fs filename of
           None \<Rightarrow> Inl FileNotFoundError
         | Some f \<Rightarrow> create_automaton order (file_text f) ignore_case)
      else
        (case import_automaton fs filename of
           Inl e \<Rightarrow> Inl e
         | Inr v \<Rightarrow> (case contents_of v of None \<Rightarrow> Inl NotModelled | Some a \<Rightarrow> Inr a)))"

text \<open>
  \<^verbatim>\<open>[None] * length\<close>: the empty list for \<open>length \<le> 0\<close>; OverflowError when \<open>length\<close> does
  not fit the index type of a 64-bit CPython; MemoryError when the list would have more
  items than a list can have there. Below that limit the memory is taken to suffice.
\<close>

definition repeat_none :: "int \<Rightarrow> error + string option list" where
  "repeat_none len =
     (if len < - (2 ^ 63) \<or> 2 ^ 63 \<le> len then Inl OverflowError
      else if 2 ^ 60 \<le> len then Inl MemoryError
      else Inr (replicate (nat len) None))"

text \<open>
  \<^verbatim>\<open>generate\<close>. The parameter \<^verbatim>\<open>length\<close> is \<open>len\<close> here. The result is what the call
  returns or raises, and the files after the call: with \<^verbatim>\<open>raw\<close> and \<^verbatim>\<open>export\<close> the
  automaton built is saved before the generation starts. \<^verbatim>\<open>next(iter(automaton))\<close> raises
  StopIteration on the empty dict.
\<close>

definition generate ::
  "'g rng \<Rightarrow> (rat \<Rightarrow> string) \<Rightarrow> 'g process \<Rightarrow> files \<Rightarrow> int \<Rightarrow> int \<Rightarrow> string \<Rightarrow> int option
     \<Rightarrow> bool \<Rightarrow> bool \<Rightarrow> bool \<Rightarrow> (error + string) \<times> files" where
  "generate R float_repr p fs len order filename seed export raw ignore_case =
     (let p' = random_seed R seed p
      in case obtain_automaton fs order filename raw ignore_case of
           Inl e \<Rightarrow> (Inl e, fs)
         | Inr automaton \<Rightarrow>
             (let fs' = (if raw \<and> export
                         then save_automaton float_repr fs (automaton_value automaton) filename
                         else fs)
              in (case automaton of
                    [] \<Rightarrow> Inl StopIteration
                  | (state, _) # _ \<Rightarrow>
                      (case repeat_none len of
                         Inl e \<Rightarrow> Inl e
                       | Inr res \<Rightarrow>
                           (case gen_loop R automaton len (rng_state p') state res 0 of
                              Inl e \<Rightarrow> Inl e
                            | Inr res' \<Rightarrow> join res')),
                  fs')))"

text \<open>For concrete runs: a generator whose \<^verbatim>\<open>random()\<close> is always \<open>0\<close>, a process, the
  \<^verbatim>\<open>repr\<close> of the float \<open>1.0\<close> (the only float of the runs below), and a file that is no
  JSON document.\<close>

definition zero_rng :: "unit rng" where
  "zero_rng = \<lparr>rng_seed = (\<lambda>s. ()), rng_random = (\<lambda>g. (0, g))\<rparr>"

definition a_process :: "unit process" where
  "a_process = \<lparr>rng_state = (), os_entropy = ()\<rparr>"

definition repr_of_one :: "rat \<Rightarrow> string" where
  "repr_of_one x = ''1.0''"

definition text_file :: "string \<Rightarrow> disk_file" where
  "text_file t = \<lparr>file_text = t, file_json = None\<rparr>"

section \<open>Auxiliary notions for the proofs\<close>

text \<open>The number of increments recorded in a raw count table, and the tables in which
  every state has a successor and every count is positive.\<close>

definition table_total :: "counts \<Rightarrow> int" where
  "table_total cs = sum_list (map (\<lambda>kv. sum_list (map snd (snd kv))) cs)"

text \<open>The sum of a list of floats as the loop \<^verbatim>\<open>s = 0.0; for p in ps: s += p\<close> computes
  it: every addition is rounded.\<close>

definition float_sum :: "rat list \<Rightarrow> rat" where
  "float_sum ps = foldl (\<lambda>s p. round_double (s + p)) 0 ps"

text \<open>The automata in which every successor is a string of one character.\<close>

definition single_chars :: "automaton \<Rightarrow> bool" where
  "single_chars a \<longleftrightarrow> (\<forall>e \<in> set a. \<forall>c \<in> set (fst (snd e)). length c = 1)"

text \<open>The state and the generator state after \<open>n\<close> iterations of the loop of
  \<^verbatim>\<open>generate\<close>, or the exception that one of them raises.\<close>

fun walk :: "'g rng \<Rightarrow> automaton \<Rightarrow> 'g \<Rightarrow> string \<Rightarrow> nat \<Rightarrow> error + (string \<times> 'g)" where
  "walk R automaton g state 0 = Inr (state, g)"
| "walk R automaton g state (Suc n) =
     (case map_of automaton state of
        None \<Rightarrow> Inl (KeyError state)
      | Some (population, weights) \<Rightarrow>
          (case choices R g population weights of
             Inl e \<Rightarrow> Inl e
           | Inr (c, g') \<Rightarrow> walk R automaton g' (drop 1 state @ c) n))"

text \<open>A generator whose state is the next value of \<^verbatim>\<open>random()\<close>.\<close>

definition echo_rng :: "rat rng" where
  "echo_rng = \<lparr>rng_seed = (\<lambda>s. 0), rng_random = (\<lambda>g. (g, g))\<rparr>"

definition well_counted :: "counts \<Rightarrow> bool" where
  "well_counted cs \<longleftrightarrow>
     (\<forall>kv \<in> set cs. snd kv \<noteq> [] \<and> (\<forall>n \<in> set (map snd (snd kv)). 0 < n))"

section \<open>Properties of the character filter\<close>

lemma non_printable_eq:
  "non_printable = [CHR 0x09, CHR 0x0A, CHR 0x0D, CHR 0x0B, CHR 0x0C]"
  by code_simp

lemma newline_in_non_printable: "newline \<in> set non_printable"
  by (simp add: non_printable_eq newline_def)

lemma lower_newline: "c \<noteq> newline \<Longrightarrow> lower c \<noteq> newline"
proof -
  assume c: "c \<noteq> newline"
  show ?thesis
  proof (cases "lower c = c")
    case True
    with c show ?thesis by simp
  next
    case False
    then have r: "(65 \<le> (of_char c :: nat) \<and> (of_char c :: nat) \<le> 90) \<or>
        (192 \<le> (of_char c :: nat) \<and> (of_char c :: nat) \<le> 222 \<and> (of_char c :: nat) \<noteq> 215)"
      and l: "lower c = char_of ((of_char c :: nat) + 32)"
      by (auto simp: lower_def Let_def split: if_splits)
    have "(of_char (lower c) :: nat) = ((of_char c :: nat) + 32) mod 256"
      by (simp add: l)
    with r have "(of_char (lower c) :: nat) \<noteq> 10"
      by auto
    then show ?thesis by (auto simp: newline_def)
  qed
qed

lemma nc_loop_fst:
  "fst (nc_loop ic first_char last_char tx) =
     map (\<lambda>c. if c = newline then CHR '' '' else if ic then c else lower c)
       (squeeze_newlines (last_char = Some newline)
          (filter (\<lambda>c. c \<notin> set [CHR 0x09, CHR 0x0D, CHR 0x0B, CHR 0x0C]) tx))"
proof (induction tx arbitrary: first_char last_char)
  case Nil
  show ?case by simp
next
  case (Cons ch rest)
  show ?case
  proof (cases "ch \<notin> set non_printable")
    case True
    then have nn: "ch \<noteq> newline" using newline_in_non_printable by auto
    from True have keep: "ch \<notin> set [CHR 0x09, CHR 0x0D, CHR 0x0B, CHR 0x0C]"
      by (simp add: non_printable_eq)
    have ln: "lower ch \<noteq> newline" using nn by (rule lower_newline)
    show ?thesis using True nn keep ln
      by (simp add: Let_def Cons.IH del: set_simps)
  next
    case False
    then have "ch = newline \<or> ch \<in> set [CHR 0x09, CHR 0x0D, CHR 0x0B, CHR 0x0C]"
      by (auto simp: non_printable_eq newline_def)
    then show ?thesis
    proof
      assume nl: "ch = newline"
      then have keep: "ch \<notin> set [CHR 0x09, CHR 0x0D, CHR 0x0B, CHR 0x0C]"
        by (simp add: newline_def)
      show ?thesis using False nl keep
        by (simp add: Let_def Cons.IH del: set_simps)
    next
      assume d: "ch \<in> set [CHR 0x09, CHR 0x0D, CHR 0x0B, CHR 0x0C]"
      then have nn: "ch \<noteq> newline" by (auto simp: newline_def)
      show ?thesis using False nn d
        by (simp add: Let_def Cons.IH del: set_simps)
    qed
  qed
qed

lemma read_text_no_return: "CHR 0x0D \<notin> set (read_text tx)"
  by (induction tx rule: read_text.induct) (auto simp: newline_def)

lemma read_text_length: "length (read_text tx) \<le> length tx"
  by (induction tx rule: read_text.induct) auto

lemma filter_read_text:
  "filter (\<lambda>c. c \<notin> set [CHR 0x09, CHR 0x0D, CHR 0x0B, CHR 0x0C]) (read_text tx)
     = filter (\<lambda>c. c \<notin> set [CHR 0x09, CHR 0x0B, CHR 0x0C]) (read_text tx)"
proof (rule filter_cong)
  show "read_text tx = read_text tx" ..
next
  fix c assume "c \<in> set (read_text tx)"
  then have "c \<noteq> CHR 0x0D" using read_text_no_return [of tx] by auto
  then show "(c \<notin> set [CHR 0x09, CHR 0x0D, CHR 0x0B, CHR 0x0C])
      = (c \<notin> set [CHR 0x09, CHR 0x0B, CHR 0x0C])" by simp
qed

text \<open>
  Claim C7, as amended. For every file and either value of \<^verbatim>\<open>ignore_case\<close>, the characters
  that the filter yields before its final value are those of the description above. The
  file is read in text mode: a carriage return followed by a newline, and a carriage
  return alone, reach the filter as one newline. Of the characters that reach it, only
  tab, vertical tab and form feed are dropped outright (every other control character and
  every character outside printable ASCII passes through); a newline is dropped when the
  last value yielded before it came from a newline, and becomes one space otherwise; every
  other character passes through, lowercased when \<^verbatim>\<open>ignore_case\<close> is false.
\<close>

theorem C7_filter_as_described:
  "filtered tx ignore_case = filter_described tx ignore_case"
  by (simp only: filtered_def filter_described_def nc_loop_fst filter_read_text) simp

text \<open>
  Claim C7 as stated fails: the control character U+0001 and the character U+00E9, which
  is outside printable ASCII, are both yielded; and in newline, tab, newline the second
  newline, which does not immediately follow a newline, is dropped, not turned into a
  space.
\<close>

theorem C7_counterexample:
  "filtered [CHR 0x01, CHR 0xE9] True = [CHR 0x01, CHR 0xE9] \<and>
   filtered [newline, CHR 0x09, newline] True = [CHR '' '']"
  by (simp add: filtered_def non_printable_eq newline_def Let_def)

text \<open>A carriage return between two letters is read as a newline and yielded as a space;
  after a newline it is dropped with it.\<close>

lemma filtered_carriage_return:
  "filtered [CHR ''a'', CHR 0x0D, CHR ''b''] True = ''a b'' \<and>
   filtered [CHR ''a'', CHR 0x0D, newline, CHR ''b''] True = ''a b'' \<and>
   filtered [CHR ''a'', newline, CHR 0x0D, CHR ''b''] True = ''a b'' \<and>
   next_character [CHR ''a'', CHR 0x0D, CHR ''b''] True
     = [Some (CHR ''a''), Some (CHR '' ''), Some (CHR ''b''), Some (CHR ''a'')]"
  by (simp add: next_character_def filtered_def sentinel_def non_printable_eq newline_def Let_def)

lemma nc_loop_snd_Some: "snd (nc_loop ic (Some f) last_char tx) = Some f"
  by (induction tx arbitrary: last_char) (simp_all add: Let_def)

lemma nc_loop_None:
  "nc_loop ic None last_char tx = (ys, s) \<Longrightarrow>
     (ys = [] \<and> s = None) \<or>
     (ys \<noteq> [] \<and> (s = Some (hd ys) \<or> (s = Some newline \<and> hd ys = CHR '' '')))"
proof (induction tx arbitrary: last_char ys s)
  case Nil
  then show ?case by simp
next
  case (Cons ch rest)
  then show ?case
    by (auto simp: Let_def nc_loop_snd_Some split: if_splits)
qed

lemma nc_loop_sentinel:
  "nc_loop ic None None (read_text tx) = (filtered tx ic, sentinel tx ic)"
  by (simp add: filtered_def sentinel_def)

lemma sentinel_None: "filtered tx ic = [] \<Longrightarrow> sentinel tx ic = None"
  using nc_loop_None [OF nc_loop_sentinel [of ic tx]] by auto

lemma sentinel_Some:
  "filtered tx ic \<noteq> [] \<Longrightarrow>
     sentinel tx ic = Some (hd (filtered tx ic)) \<or>
     (sentinel tx ic = Some newline \<and> hd (filtered tx ic) = CHR '' '')"
  using nc_loop_None [OF nc_loop_sentinel [of ic tx]] by auto

text \<open>
  Claim C8 at the text newline, a, b: the first value yielded is a space, and the extra
  value after the last character is a newline, not that space. The branch for a newline
  stores the character read in \<^verbatim>\<open>first_char\<close>, where the other branch stores the
  character it yields.
\<close>

theorem C8_sentinel_is_newline_after_leading_newline:
  "next_character [newline, CHR ''a'', CHR ''b''] True
     = [Some (CHR '' ''), Some (CHR ''a''), Some (CHR ''b''), Some newline]"
  by (simp add: next_character_def filtered_def sentinel_def non_printable_eq newline_def Let_def)

section \<open>Properties of the rounded division\<close>

lemma pow2_power_int: "pow2 k = power_int 2 k"
proof (cases "0 \<le> k")
  case True
  then show ?thesis by (simp add: pow2_def power_int_def)
next
  case False
  have "(1::rat) / 2 ^ nat (- k) = inverse 2 ^ nat (- k)"
    by (simp only: inverse_eq_divide power_one_over)
  with False show ?thesis by (simp only: pow2_def power_int_def if_False)
qed

lemma pow2_pos: "0 < pow2 k"
  by (simp add: pow2_power_int)

lemma pow2_add: "pow2 (a + b) = pow2 a * pow2 b"
  by (simp add: pow2_power_int power_int_add)

lemma pow2_mono: "a \<le> b \<Longrightarrow> pow2 a \<le> pow2 b"
  by (simp add: pow2_power_int power_int_increasing)

lemma pow2_nat: "0 \<le> k \<Longrightarrow> pow2 k = 2 ^ nat k"
  by (simp add: pow2_def)

lemma bitlen_pow2_bounds:
  assumes "0 < a"
  shows "pow2 (bitlen a - 1) \<le> of_int a" and "of_int a < pow2 (bitlen a)"
proof -
  from assms have b1: "1 \<le> bitlen a"
    using bitlen_eq_zero_iff [of a] bitlen_nonneg [of a] by linarith
  from bitlen_bounds [OF assms]
  have l: "2 ^ nat (bitlen a - 1) \<le> a" and u: "a < 2 ^ nat (bitlen a)" by auto
  have "(of_int (2 ^ nat (bitlen a - 1)) :: rat) \<le> of_int a"
    using l by (simp only: of_int_le_iff)
  then show "pow2 (bitlen a - 1) \<le> of_int a"
    using b1 by (simp add: pow2_nat)
  have "(of_int a :: rat) < of_int (2 ^ nat (bitlen a))"
    using u by (simp only: of_int_less_iff)
  then show "of_int a < pow2 (bitlen a)"
    using b1 by (simp add: pow2_nat)
qed

lemma ilog2_bounds:
  assumes "0 < x"
  shows "pow2 (ilog2 x) \<le> x" and "x < pow2 (ilog2 x + 1)"
proof -
  obtain a b where q: "quotient_of x = (a, b)" by (cases "quotient_of x")
  have b: "0 < b" using quotient_of_denom_pos [OF q] .
  have x: "x = of_int a / of_int b" using quotient_of_div [OF q] .
  have a: "0 < a" using assms b x by (simp add: zero_less_divide_iff)
  define d where "d = bitlen a - bitlen b"
  have rb: "0 < (of_int b :: rat)" using b by simp
  have lo: "pow2 (d - 1) \<le> x"
  proof -
    have "pow2 (d - 1) * of_int b \<le> pow2 (d - 1) * pow2 (bitlen b)"
      using bitlen_pow2_bounds(2) [OF b] pow2_pos [of "d - 1"] by (simp add: less_imp_le)
    also have "\<dots> = pow2 (bitlen a - 1)"
      by (simp add: pow2_add [symmetric] d_def)
    also have "\<dots> \<le> of_int a" using bitlen_pow2_bounds(1) [OF a] .
    finally show ?thesis using rb by (simp add: x pos_le_divide_eq)
  qed
  have hi: "x < pow2 (d + 1)"
  proof -
    have "of_int a < pow2 (bitlen a)" using bitlen_pow2_bounds(2) [OF a] .
    also have "\<dots> = pow2 (d + 1) * pow2 (bitlen b - 1)"
      by (simp add: pow2_add [symmetric] d_def)
    also have "\<dots> \<le> pow2 (d + 1) * of_int b"
      using bitlen_pow2_bounds(1) [OF b] pow2_pos [of "d + 1"] by simp
    finally show ?thesis using rb by (simp add: x pos_divide_less_eq)
  qed
  have e: "ilog2 x = (if pow2 d \<le> x then d else d - 1)"
    by (simp add: ilog2_def q d_def)
  show "pow2 (ilog2 x) \<le> x" using lo by (simp add: e)
  show "x < pow2 (ilog2 x + 1)" using hi by (auto simp: e)
qed

lemma round_half_even_near: "\<bar>of_int (round_half_even y) - y\<bar> \<le> 1 / 2"
proof -
  have "of_int \<lfloor>y\<rfloor> \<le> y" "y < of_int \<lfloor>y\<rfloor> + 1" by linarith+
  then show ?thesis
    by (auto simp: round_half_even_def Let_def abs_le_iff) 
qed


lemma round_double_normal:
  assumes x: "pow2 (- 1022) \<le> x"
  shows "\<bar>round_double x - x\<bar> \<le> x * pow2 (- 53)" and "0 < round_double x"
proof -
  have xp: "0 < x" using x pow2_pos [of "- 1022"] by linarith
  define e where "e = ilog2 x"
  have lo: "pow2 e \<le> x" and hi: "x < pow2 (e + 1)"
    using ilog2_bounds [OF xp] by (simp_all add: e_def)
  have e: "- 1022 \<le> e"
  proof (rule ccontr)
    assume "\<not> - 1022 \<le> e"
    then have "e + 1 \<le> - 1022" by simp
    then have "pow2 (e + 1) \<le> pow2 (- 1022)" by (rule pow2_mono)
    with hi x show False by linarith
  qed
  define k where "k = e - 52"
  define y where "y = x / pow2 k"
  define m where "m = round_half_even y"
  have kp: "0 < pow2 k" by (rule pow2_pos)
  have mx: "max (ilog2 x - 52) (- 1074) = k" using e by (simp add: k_def e_def)
  have ax: "\<bar>x\<bar> = x" using xp by simp
  have rd: "round_double x = of_int m * pow2 k"
    using xp by (simp add: round_double_def Let_def ax mx m_def y_def)
  have xy: "x = y * pow2 k" using kp by (simp add: y_def)
  have near: "\<bar>of_int m - y\<bar> \<le> 1 / 2" unfolding m_def by (rule round_half_even_near)
  have "round_double x - x = of_int m * pow2 k - y * pow2 k"
    by (simp only: rd xy [symmetric])
  then have "round_double x - x = (of_int m - y) * pow2 k"
    by (simp add: algebra_simps)
  then have "\<bar>round_double x - x\<bar> = \<bar>of_int m - y\<bar> * pow2 k"
    using kp by (simp add: abs_mult)
  also have "\<dots> \<le> (1 / 2) * pow2 k"
    using near kp by (intro mult_right_mono) simp_all
  also have "\<dots> = pow2 (- 1) * pow2 k" by (simp add: pow2_def)
  also have "\<dots> = pow2 e * pow2 (- 53)"
    by (simp add: pow2_add [symmetric] k_def)
  also have "\<dots> \<le> x * pow2 (- 53)"
    using lo pow2_pos [of "- 53"] by (intro mult_right_mono) simp_all
  finally show "\<bar>round_double x - x\<bar> \<le> x * pow2 (- 53)" .
  have "pow2 52 * pow2 k = pow2 e" by (simp add: pow2_add [symmetric] k_def)
  then have "pow2 52 * pow2 k \<le> y * pow2 k" using lo xy by simp
  then have "pow2 52 \<le> y" using kp by simp
  moreover have "(1::rat) \<le> pow2 52" using pow2_mono [of 0 52] by (simp add: pow2_def)
  ultimately have "1 \<le> y" by linarith
  with near have "0 < (of_int m :: rat)" by linarith
  then show "0 < round_double x" using kp by (simp add: rd)
qed

lemma py_truediv_ok:
  assumes v: "0 < v" and vT: "v \<le> T" and T: "of_int T \<le> pow2 1022"
  shows "\<exists>p. py_truediv v T = Inr p \<and> 0 < p \<and>
           \<bar>p - of_int v / of_int T\<bar> \<le> (of_int v / of_int T) * pow2 (- 53)"
proof -
  define x :: rat where "x = of_int v / of_int T"
  have Tp: "0 < T" using v vT by simp
  have rT: "0 < (of_int T :: rat)" using Tp by simp
  have "pow2 (- 1022) * of_int T \<le> pow2 (- 1022) * pow2 1022"
    using T pow2_pos [of "- 1022"] by (intro mult_left_mono) simp_all
  also have "\<dots> = 1" by (simp add: pow2_add [symmetric]) (simp add: pow2_def)
  also have "\<dots> \<le> of_int v" using v by simp
  finally have x: "pow2 (- 1022) \<le> x" using rT by (simp add: x_def pos_le_divide_eq)
  have x1: "x \<le> 1" using vT rT by (simp add: x_def)
  have xp: "0 < x" using v rT by (simp add: x_def)
  note r = round_double_normal [OF x]
  have "pow2 (- 53) \<le> pow2 0" by (rule pow2_mono) simp
  then have p53: "pow2 (- 53) \<le> 1" by (simp add: pow2_def)
  have "x * pow2 (- 53) \<le> 1 * 1"
    using x1 p53 xp pow2_pos [of "- 53"] by (intro mult_mono) simp_all
  with r x1 have "\<bar>round_double x\<bar> \<le> 2" by (simp add: abs_le_iff)
  moreover have "pow2 1 \<le> pow2 1024" by (rule pow2_mono) simp
  then have "2 \<le> pow2 1024" by (simp add: pow2_def)
  moreover have "(2::rat) < 2 * 2" by simp
  moreover have "pow2 1 * pow2 1 \<le> pow2 1024"
    unfolding pow2_add [symmetric] by (rule pow2_mono) simp
  then have "2 * 2 \<le> pow2 1024" by (simp add: pow2_def)
  ultimately have "\<not> overflows (round_double x)" by (simp add: overflows_def)
  then have "py_truediv v T = Inr (round_double x)"
    using Tp by (simp add: py_truediv_def x_def Let_def)
  with r show ?thesis by (auto simp: x_def)
qed

lemma le_sum_list_int:
  "\<forall>x \<in> set xs. (0::int) \<le> x \<Longrightarrow> v \<in> set xs \<Longrightarrow> v \<le> sum_list xs"
proof (induction xs)
  case Nil
  then show ?case by simp
next
  case (Cons a xs)
  have "0 \<le> sum_list xs" using Cons.prems(1) by (simp add: sum_list_nonneg)
  with Cons show ?case by auto
qed

lemma map_err_truediv:
  assumes "\<forall>v \<in> set vs. 0 < v \<and> v \<le> T" and T: "of_int T \<le> pow2 1022" and Tp: "0 < T"
  shows "\<exists>ps. map_err (\<lambda>v. py_truediv v T) vs = Inr ps \<and> length ps = length vs \<and>
           (\<forall>p \<in> set ps. 0 < p) \<and>
           \<bar>sum_list ps - of_int (sum_list vs) / of_int T\<bar>
             \<le> (of_int (sum_list vs) / of_int T) * pow2 (- 53)"
  using assms(1)
proof (induction vs)
  case Nil
  then show ?case by simp
next
  case (Cons v vs)
  from Cons.prems have v: "0 < v" "v \<le> T" by simp_all
  from py_truediv_ok [OF v T] obtain p where
    p: "py_truediv v T = Inr p" "0 < p"
       "\<bar>p - of_int v / of_int T\<bar> \<le> (of_int v / of_int T) * pow2 (- 53)"
    by blast
  from Cons.IH Cons.prems obtain ps where
    ps: "map_err (\<lambda>v. py_truediv v T) vs = Inr ps" "length ps = length vs"
        "\<forall>p \<in> set ps. 0 < p"
        "\<bar>sum_list ps - of_int (sum_list vs) / of_int T\<bar>
           \<le> (of_int (sum_list vs) / of_int T) * pow2 (- 53)"
    by auto
  have "\<bar>(p + sum_list ps) - (of_int v / of_int T + of_int (sum_list vs) / of_int T)\<bar>
          \<le> \<bar>p - of_int v / of_int T\<bar> + \<bar>sum_list ps - of_int (sum_list vs) / of_int T\<bar>"
    by linarith
  also have "\<dots> \<le> (of_int v / of_int T) * pow2 (- 53)
                  + (of_int (sum_list vs) / of_int T) * pow2 (- 53)"
    using p(3) ps(4) by linarith
  finally have "\<bar>sum_list (p # ps) - of_int (sum_list (v # vs)) / of_int T\<bar>
                  \<le> (of_int (sum_list (v # vs)) / of_int T) * pow2 (- 53)"
    by (simp add: add_divide_distrib algebra_simps)
  with p ps show ?case by (intro exI [of _ "p # ps"]) simp
qed

lemma pow2_m53_small: "pow2 (- 53) \<le> 1 / 10 ^ 9"
proof -
  have "(10::rat) ^ 9 \<le> 2 ^ 53" by simp
  then show ?thesis by (simp add: pow2_def field_simps)
qed

lemma normalize_entry_ok:
  assumes ne: "tr \<noteq> []" and pos: "\<forall>n \<in> set (map snd tr). 0 < n"
    and T: "of_int (sum_list (map snd tr)) \<le> pow2 1022"
  shows "\<exists>ps. normalize_entry tr = Inr (map fst tr, ps) \<and> length ps = length tr \<and>
           (\<forall>p \<in> set ps. 0 < p) \<and> \<bar>sum_list ps - 1\<bar> \<le> pow2 (- 53)"
proof -
  define T' where "T' = sum_list (map snd tr)"
  from ne obtain n where n: "n \<in> set (map snd tr)" by (cases tr) auto
  have nonneg: "\<forall>x \<in> set (map snd tr). 0 \<le> x" using pos by auto
  have le: "\<forall>v \<in> set (map snd tr). 0 < v \<and> v \<le> T'"
    using pos le_sum_list_int [OF nonneg] by (auto simp: T'_def)
  with n have Tp: "0 < T'" by force
  from map_err_truediv [OF le T [folded T'_def] Tp] obtain ps where
    ps: "map_err (\<lambda>v. py_truediv v T') (map snd tr) = Inr ps" "length ps = length (map snd tr)"
        "\<forall>p \<in> set ps. 0 < p"
        "\<bar>sum_list ps - of_int T' / of_int T'\<bar> \<le> (of_int T' / of_int T') * pow2 (- 53)"
    unfolding T'_def by blast
  have "(of_int T' :: rat) / of_int T' = 1" using Tp by simp
  with ps(4) have "\<bar>sum_list ps - 1\<bar> \<le> pow2 (- 53)" by simp
  with ps show ?thesis
    by (intro exI [of _ ps]) (simp add: normalize_entry_def T'_def [symmetric])
qed

section \<open>Properties of the automaton builder\<close>

lemma map_err_Inr:
  "map_err f xs = Inr ys \<Longrightarrow> list_all2 (\<lambda>x y. f x = Inr y) xs ys"
  by (induction xs arbitrary: ys) (auto split: sum.splits)

lemma map_err_member:
  assumes "map_err f xs = Inr ys" and "y \<in> set ys"
  shows "\<exists>x \<in> set xs. f x = Inr y"
proof -
  from map_err_Inr [OF assms(1)] have l: "list_all2 (\<lambda>x y. f x = Inr y) xs ys" .
  from assms(2) obtain i where i: "i < length ys" "ys ! i = y"
    by (auto simp: in_set_conv_nth)
  from l i have "f (xs ! i) = Inr y" by (auto dest: list_all2_nthD2)
  moreover from l i have "xs ! i \<in> set xs" by (auto dest: list_all2_lengthD)
  ultimately show ?thesis by blast
qed

lemma dd_update_values:
  assumes "\<forall>kv \<in> set kvs. P (snd kv)" and "P (f dflt)" and "\<And>v. P v \<Longrightarrow> P (f v)"
  shows "\<forall>kv \<in> set (dd_update dflt f kvs k). P (snd kv)"
  using assms(1) by (induction kvs) (fastforce simp: assms(2,3) split: if_splits)+

lemma dd_update_bump_sum:
  "sum_list (map snd (dd_update 0 (\<lambda>n. n + 1) tr c)) = sum_list (map snd tr) + (1::int)"
  by (induction tr) auto

lemma dd_update_bump_pos:
  assumes "\<forall>kv \<in> set tr. (0::int) < snd kv"
  shows "\<forall>kv \<in> set (dd_update 0 (\<lambda>n. n + 1) tr c). 0 < snd kv"
  using assms by (rule dd_update_values) simp_all

lemma dd_update_not_Nil: "dd_update dflt f kvs k \<noteq> []"
  by (cases kvs) (auto split: if_splits)

lemma table_total_incr: "table_total (incr cs cur c) = table_total cs + 1"
  unfolding incr_def table_total_def
  by (induction cs) (auto simp: dd_update_bump_sum)

lemma well_counted_incr:
  assumes "well_counted cs"
  shows "well_counted (incr cs cur c)"
proof -
  let ?P = "\<lambda>tr :: transitions. tr \<noteq> [] \<and> (\<forall>kv \<in> set tr. 0 < snd kv)"
  let ?f = "\<lambda>tr. dd_update 0 (\<lambda>n. n + 1) tr c"
  have 1: "\<forall>kv \<in> set cs. ?P (snd kv)"
    using assms by (simp add: well_counted_def)
  have 2: "?P (?f [])" by simp
  have 3: "?P (?f v)" if "?P v" for v
    using that dd_update_bump_pos [of v c] by (simp add: dd_update_not_Nil)
  have "\<forall>kv \<in> set (dd_update [] ?f cs cur). ?P (snd kv)"
    using 1 2 3 by (rule dd_update_values)
  then show ?thesis by (simp add: well_counted_def incr_def)
qed

lemma count_loop_invariant:
  "count_loop cs cur gen = Inr cs' \<Longrightarrow> well_counted cs \<Longrightarrow>
     well_counted cs' \<and> table_total cs' = table_total cs + int (length gen)"
proof (induction cs cur gen rule: count_loop.induct)
  case (1 automaton cur)
  then show ?case by simp
next
  case (2 automaton cur gen)
  then show ?case by simp
next
  case (3 automaton cur c gen)
  then show ?case
    by (simp add: well_counted_incr table_total_incr)
qed

lemma prime_length:
  "prime n cur gen = Inr (cur', gen') \<Longrightarrow> length gen' \<le> length gen"
  by (induction n cur gen rule: prime.induct) auto

lemma entry_le_table_total:
  assumes "well_counted cs" and "(k, tr) \<in> set cs"
  shows "sum_list (map snd tr) \<le> table_total cs"
proof -
  have "\<forall>x \<in> set (map (\<lambda>kv. sum_list (map snd (snd kv))) cs). 0 \<le> x"
  proof
    fix x assume "x \<in> set (map (\<lambda>kv. sum_list (map snd (snd kv))) cs)"
    then obtain kv where kv: "kv \<in> set cs" "x = sum_list (map snd (snd kv))" by auto
    from assms(1) kv(1) have "\<forall>n \<in> set (map snd (snd kv)). 0 \<le> n"
      by (force simp: well_counted_def)
    then show "0 \<le> x" unfolding kv(2) by (intro sum_list_nonneg) blast
  qed
  moreover have "sum_list (map snd tr) \<in> set (map (\<lambda>kv. sum_list (map snd (snd kv))) cs)"
    using assms(2) by force
  ultimately show ?thesis unfolding table_total_def by (rule le_sum_list_int)
qed

lemma squeeze_newlines_length: "length (squeeze_newlines b cs) \<le> length cs"
  by (induction cs arbitrary: b) (auto simp: le_SucI)

lemma filtered_length: "length (filtered tx ic) \<le> length tx"
proof -
  have "length (filtered tx ic) \<le>
      length (filter (\<lambda>c. c \<notin> set [CHR 0x09, CHR 0x0D, CHR 0x0B, CHR 0x0C]) (read_text tx))"
    unfolding filtered_def nc_loop_fst by (simp only: length_map squeeze_newlines_length)
  also have "\<dots> \<le> length (read_text tx)" by (rule length_filter_le)
  also have "\<dots> \<le> length tx" by (rule read_text_length)
  finally show ?thesis .
qed

lemma create_automaton_counts:
  assumes "create_automaton order tx ic = Inr a"
  shows "\<exists>cs. well_counted cs \<and> table_total cs \<le> int (length tx) + 1 \<and>
           normalize_automaton cs = Inr a"
proof -
  from assms obtain cur gen cs where
    p: "prime (nat order) [] (next_character tx ic) = Inr (cur, gen)"
    and c: "count_loop [] cur gen = Inr cs"
    and n: "normalize_automaton cs = Inr a"
    by (auto simp: create_automaton_def split: sum.splits)
  have w0: "well_counted []" by (simp add: well_counted_def)
  from count_loop_invariant [OF c w0]
  have w: "well_counted cs" and t: "table_total cs = int (length gen)"
    by (simp_all add: table_total_def)
  have "length gen \<le> length (next_character tx ic)" using p by (rule prime_length)
  also have "\<dots> \<le> length tx + 1"
    using filtered_length [of tx ic] by (simp add: next_character_def)
  finally have "table_total cs \<le> int (length tx) + 1" using t by simp
  with w n show ?thesis by blast
qed

lemma normalize_automaton_member:
  assumes "normalize_automaton cs = Inr a" and "(k, succs, probs) \<in> set a"
  shows "\<exists>tr. (k, tr) \<in> set cs \<and> normalize_entry tr = Inr (succs, probs)"
proof -
  from map_err_member [OF assms(1) [unfolded normalize_automaton_def] assms(2)]
  show ?thesis by (auto split: sum.splits)
qed

lemma built_entry:
  assumes a: "create_automaton order tx ic = Inr a" and len: "length tx < 2 ^ 63"
    and m: "(k, succs, probs) \<in> set a"
  shows "succs \<noteq> [] \<and> length succs = length probs \<and> (\<forall>p \<in> set probs. 0 < p) \<and>
         \<bar>sum_list probs - 1\<bar> \<le> pow2 (- 53)"
proof -
  from create_automaton_counts [OF a] obtain cs where
    w: "well_counted cs" and t: "table_total cs \<le> int (length tx) + 1"
    and n: "normalize_automaton cs = Inr a" by blast
  from normalize_automaton_member [OF n m] obtain tr where
    tr: "(k, tr) \<in> set cs" "normalize_entry tr = Inr (succs, probs)" by blast
  from w tr(1) have ne: "tr \<noteq> []" and pos: "\<forall>n \<in> set (map snd tr). 0 < n"
    by (auto simp: well_counted_def)
  have "sum_list (map snd tr) \<le> table_total cs" using w tr(1) by (rule entry_le_table_total)
  with t len have "sum_list (map snd tr) \<le> 2 ^ 63" by simp
  then have "(of_int (sum_list (map snd tr)) :: rat) \<le> of_int (2 ^ 63)"
    by (simp only: of_int_le_iff)
  also have "\<dots> = pow2 63" by (simp add: pow2_def)
  also have "\<dots> \<le> pow2 1022" by (rule pow2_mono) simp
  finally have T: "of_int (sum_list (map snd tr)) \<le> pow2 1022" .
  from normalize_entry_ok [OF ne pos T] tr(2) ne show ?thesis by auto
qed

lemma prime_Some_items:
  "prime m cur (map Some ys @ gen) =
     (if m \<le> length ys then Inr (cur @ take m ys, map Some (drop m ys) @ gen)
      else prime (m - length ys) (cur @ ys) gen)"
proof (induction ys arbitrary: m cur)
  case Nil
  then show ?case by (cases m) simp_all
next
  case (Cons y ys)
  then show ?case by (cases m) simp_all
qed

lemma prime_sentinel:
  "0 < m \<Longrightarrow> prime m cur [s] =
     (case s of None \<Rightarrow> Inl TypeError
      | Some c \<Rightarrow> if m = 1 then Inr (cur @ [c], []) else Inl StopIteration)"
proof (cases m)
  case 0
  assume "0 < m"
  with 0 show ?thesis by simp
next
  case (Suc n)
  then show ?thesis by (cases s; cases n) simp_all
qed

lemma sentinel_filtered:
  "sentinel tx ic = None \<longleftrightarrow> filtered tx ic = []"
  using sentinel_None [of tx ic] sentinel_Some [of tx ic] by (cases "filtered tx ic = []") auto

lemma normalize_automaton_Nil: "normalize_automaton [] = Inr []"
  by (simp add: normalize_automaton_def)

lemma create_automaton_short:
  assumes o: "1 \<le> order" and n: "int (length (filtered tx ic)) < order"
  shows "create_automaton order tx ic =
     (if filtered tx ic = [] then Inl TypeError
      else if int (length (filtered tx ic)) + 1 < order then Inl StopIteration
      else Inr [])"
proof -
  let ?ys = "filtered tx ic"
  have m: "\<not> nat order \<le> length ?ys" "0 < nat order - length ?ys" using n by simp_all
  have p: "prime (nat order) [] (next_character tx ic) =
      (case sentinel tx ic of None \<Rightarrow> Inl TypeError
       | Some c \<Rightarrow> if nat order - length ?ys = 1 then Inr (?ys @ [c], []) else Inl StopIteration)"
    unfolding next_character_def prime_Some_items using m
    by (simp add: prime_sentinel)
  show ?thesis
  proof (cases "?ys = []")
    case True
    then have "sentinel tx ic = None" by (rule sentinel_None)
    with True p show ?thesis by (simp add: create_automaton_def)
  next
    case False
    then obtain c where c: "sentinel tx ic = Some c"
      using sentinel_filtered [of tx ic] by (cases "sentinel tx ic") auto
    have eq: "nat order - length ?ys = 1 \<longleftrightarrow> \<not> int (length ?ys) + 1 < order"
      using n by auto
    show ?thesis using False p c eq
      by (simp add: create_automaton_def normalize_automaton_Nil)
  qed
qed

lemma filtered_a: "filtered ''a'' True = ''a''"
  by (simp add: filtered_def non_printable_eq Let_def)

lemma round_double_unit:
  assumes xp: "0 < x" and x1: "x \<le> 1"
  shows "\<not> overflows (round_double x)"
proof -
  define e where "e = ilog2 x"
  have lo: "pow2 e \<le> x" using ilog2_bounds(1) [OF xp] by (simp add: e_def)
  have e: "e \<le> 0"
  proof (rule ccontr)
    assume "\<not> e \<le> 0"
    then have "pow2 1 \<le> pow2 e" by (intro pow2_mono) simp
    with lo x1 show False by (simp add: pow2_def)
  qed
  define k where "k = max (e - 52) (- 1074)"
  define y where "y = x / pow2 k"
  define m where "m = round_half_even y"
  have kp: "0 < pow2 k" by (rule pow2_pos)
  have "k \<le> 0" using e by (simp add: k_def)
  then have "pow2 k \<le> pow2 0" by (rule pow2_mono)
  then have k1: "pow2 k \<le> 1" by (simp add: pow2_def)
  have ax: "\<bar>x\<bar> = x" using xp by simp
  have rd: "round_double x = of_int m * pow2 k"
    using xp by (simp add: round_double_def Let_def ax m_def y_def k_def e_def)
  have xy: "x = y * pow2 k" using kp by (simp add: y_def)
  have near: "\<bar>of_int m - y\<bar> \<le> 1 / 2" unfolding m_def by (rule round_half_even_near)
  have "round_double x - x = of_int m * pow2 k - y * pow2 k"
    by (simp only: rd xy [symmetric])
  then have "round_double x - x = (of_int m - y) * pow2 k"
    by (simp add: algebra_simps)
  then have "\<bar>round_double x - x\<bar> = \<bar>of_int m - y\<bar> * pow2 k"
    using kp by (simp add: abs_mult)
  also have "\<dots> \<le> (1 / 2) * 1"
    using near k1 kp by (intro mult_mono) simp_all
  finally have "\<bar>round_double x\<bar> \<le> 2" using x1 xp by linarith
  moreover have "pow2 2 \<le> pow2 1024" by (rule pow2_mono) simp
  then have "4 \<le> pow2 1024" by (simp add: pow2_def)
  ultimately show ?thesis by (simp add: overflows_def)
qed

lemma py_truediv_total:
  assumes "0 < v" and "v \<le> T"
  shows "\<exists>p. py_truediv v T = Inr p"
proof -
  have T: "0 < (of_int T :: rat)" using assms by simp
  have "0 < (of_int v :: rat) / of_int T" using assms T by simp
  moreover have "(of_int v :: rat) / of_int T \<le> 1" using assms T by simp
  ultimately have "\<not> overflows (round_double (of_int v / of_int T))"
    by (rule round_double_unit)
  then show ?thesis using assms by (simp add: py_truediv_def Let_def)
qed

lemma map_err_total:
  "\<forall>x \<in> set xs. \<exists>y. f x = Inr y \<Longrightarrow> \<exists>ys. map_err f xs = Inr ys"
  by (induction xs) auto

lemma normalize_entry_total:
  assumes "\<forall>n \<in> set (map snd tr). 0 < n"
  shows "\<exists>ps. normalize_entry tr = Inr (map fst tr, ps)"
proof -
  have nonneg: "\<forall>x \<in> set (map snd tr). 0 \<le> x" using assms by auto
  have "\<forall>v \<in> set (map snd tr). \<exists>p. py_truediv v (sum_list (map snd tr)) = Inr p"
    using assms le_sum_list_int [OF nonneg] by (auto intro!: py_truediv_total)
  from map_err_total [OF this] show ?thesis
    by (auto simp: normalize_entry_def)
qed

lemma normalize_automaton_total:
  assumes "well_counted cs"
  shows "\<exists>a. normalize_automaton cs = Inr a"
  unfolding normalize_automaton_def
proof (rule map_err_total, rule ballI)
  fix x assume "x \<in> set cs"
  with assms have "\<forall>n \<in> set (map snd (snd x)). 0 < n" by (simp add: well_counted_def)
  from normalize_entry_total [OF this] obtain ps where
    "normalize_entry (snd x) = Inr (map fst (snd x), ps)" by blast
  then show "\<exists>y. (case x of (state, transitions) \<Rightarrow>
      (case normalize_entry transitions of Inl e \<Rightarrow> Inl e | Inr r \<Rightarrow> Inr (state, r))) = Inr y"
    by (cases x) simp
qed

lemma normalize_automaton_keys:
  "normalize_automaton cs = Inr a \<Longrightarrow> map fst a = map fst cs"
proof -
  assume "normalize_automaton cs = Inr a"
  then have "list_all2 (\<lambda>x y. (case x of (state, transitions) \<Rightarrow>
      (case normalize_entry transitions of Inl e \<Rightarrow> Inl e | Inr r \<Rightarrow> Inr (state, r))) = Inr y) cs a"
    unfolding normalize_automaton_def by (rule map_err_Inr)
  then show ?thesis
    by (induction cs a rule: list_all2_induct) (auto split: sum.splits)
qed

lemma incr_not_Nil: "incr cs cur c \<noteq> []"
  by (simp add: incr_def dd_update_not_Nil)

lemma count_loop_total:
  "\<exists>cs'. count_loop cs cur (map Some ys) = Inr cs' \<and> (cs \<noteq> [] \<or> ys \<noteq> [] \<longrightarrow> cs' \<noteq> [])"
proof (induction ys arbitrary: cs cur)
  case Nil
  show ?case by simp
next
  case (Cons y ys)
  from Cons [of "incr cs cur [y]" "drop 1 cur @ [y]"] show ?case
    by (auto simp: incr_not_Nil)
qed


section \<open>Properties of the generator\<close>

declare bisect.simps [simp del] gen_loop.simps [simp del]

lemma bisect_bounds: "lo \<le> hi \<Longrightarrow> lo \<le> bisect a x lo hi \<and> bisect a x lo hi \<le> hi"
proof (induction a x lo hi rule: bisect.induct)
  case (1 a x lo hi)
  show ?case
  proof (cases "lo < hi")
    case False
    with "1.prems" show ?thesis by (subst bisect.simps, subst (2) bisect.simps) simp
  next
    case True
    define mid where "mid = (lo + hi) div 2"
    have m: "lo \<le> mid" "mid < hi" using True by (simp_all add: mid_def)
    show ?thesis
    proof (cases "x < a ! mid")
      case l: True
      have "lo \<le> bisect a x lo mid \<and> bisect a x lo mid \<le> mid"
        using "1.IH"(1) [OF True mid_def l] m by simp
      moreover have "bisect a x lo hi = bisect a x lo mid"
        using True l by (subst bisect.simps) (simp add: mid_def Let_def)
      ultimately show ?thesis using m by simp
    next
      case r: False
      have "mid + 1 \<le> bisect a x (mid + 1) hi \<and> bisect a x (mid + 1) hi \<le> hi"
        using "1.IH"(2) [OF True mid_def r] m by simp
      moreover have "bisect a x lo hi = bisect a x (mid + 1) hi"
        using True r by (subst bisect.simps) (simp add: mid_def Let_def)
      ultimately show ?thesis using m by simp
    qed
  qed
qed

lemma choices_member:
  assumes "choices R g population weights = Inr (c, g')"
  shows "c \<in> set population"
proof -
  from assms obtain cum where cum: "accumulate weights = Some cum"
    "length cum = length population" "cum \<noteq> []"
    by (auto simp: choices_def Let_def split: option.splits if_splits)
  obtain r g1 where r: "rng_random R g = (r, g1)" by (cases "rng_random R g")
  define i where "i = bisect cum (round_double (r * last cum)) 0 (length population - 1)"
  from assms cum r have c: "c = population ! i"
    by (auto simp: choices_def Let_def i_def split: if_splits)
  have "i \<le> length population - 1" unfolding i_def using bisect_bounds [of 0] by simp
  moreover have "0 < length population" using cum by (cases population) auto
  ultimately have "i < length population" by linarith
  then show ?thesis by (simp add: c)
qed

lemma gen_loop_filled:
  assumes "gen_loop R a len g st res index = Inr res'" and "single_chars a"
    and "0 \<le> index" and "length res = nat len"
    and "\<forall>i < nat index. \<exists>c. res ! i = Some c \<and> length c = 1"
  shows "length res' = nat len \<and> (\<forall>i < nat len. \<exists>c. res' ! i = Some c \<and> length c = 1)"
  using assms
proof (induction R a len g st res index rule: gen_loop.induct)
  case (1 R a len g st res index)
  show ?case
  proof (cases "index < len")
    case False
    then have "res' = res" using "1.prems"(1) by (subst (asm) gen_loop.simps) simp
    moreover have "nat len \<le> nat index" using False by simp
    ultimately show ?thesis using "1.prems"(4,5) by auto
  next
    case True
    from True "1.prems"(1) obtain population weights c g' where
      e: "map_of a st = Some (population, weights)"
      and ch: "choices R g population weights = Inr (c, g')"
      and rec: "gen_loop R a len g' (drop 1 st @ c) (res[nat index := Some c]) (index + 1) = Inr res'"
      by (subst (asm) gen_loop.simps) (auto split: option.splits sum.splits)
    have "(st, population, weights) \<in> set a" using e by (rule map_of_SomeD)
    moreover have "c \<in> set population" using ch by (rule choices_member)
    ultimately have c1: "length c = 1" using "1.prems"(2) by (force simp: single_chars_def)
    have idx: "nat index < length res" using True "1.prems"(3,4) by simp
    have filled: "\<forall>i < nat (index + 1). \<exists>c'. res[nat index := Some c] ! i = Some c' \<and> length c' = 1"
    proof (intro allI impI)
      fix i assume i: "i < nat (index + 1)"
      show "\<exists>c'. res[nat index := Some c] ! i = Some c' \<and> length c' = 1"
      proof (cases "i = nat index")
        case True
        then show ?thesis using idx c1 by simp
      next
        case False
        then have "i < nat index" using i "1.prems"(3) by simp
        then show ?thesis using False "1.prems"(5) by simp
      qed
    qed
    show ?thesis
      using "1.IH" [OF True e refl ch refl rec "1.prems"(2)] "1.prems"(3,4) filled by simp
  qed
qed

lemma join_filled:
  "\<forall>i < length res. \<exists>c. res ! i = Some c \<and> length c = 1 \<Longrightarrow>
     \<exists>s. join res = Inr s \<and> length s = length res"
proof (induction res)
  case Nil
  show ?case by simp
next
  case (Cons x res)
  from Cons.prems have "\<exists>c. (x # res) ! 0 = Some c \<and> length c = 1" by blast
  then obtain c where c: "x = Some c" "length c = 1" by auto
  have "\<forall>i < length res. \<exists>c. res ! i = Some c \<and> length c = 1"
  proof (intro allI impI)
    fix i assume "i < length res"
    then have "Suc i < length (x # res)" by simp
    with Cons.prems have "\<exists>c. (x # res) ! Suc i = Some c \<and> length c = 1" by blast
    then show "\<exists>c. res ! i = Some c \<and> length c = 1" by simp
  qed
  from Cons.IH [OF this] obtain s where "join res = Inr s" "length s = length res" by blast
  with c show ?case by simp
qed

lemma gen_loop_done: "\<not> index < len \<Longrightarrow> gen_loop R a len g st res index = Inr res"
  by (subst gen_loop.simps) simp

lemma gen_loop_unknown:
  "index < len \<Longrightarrow> map_of a st = None \<Longrightarrow> gen_loop R a len g st res index = Inl (KeyError st)"
  by (subst gen_loop.simps) simp

lemma dd_update_map_fst:
  "map fst (dd_update dflt f kvs k) =
     (if k \<in> set (map fst kvs) then map fst kvs else map fst kvs @ [k])"
  by (induction kvs) (auto split: if_splits)

lemma dd_update_keys:
  "set (map fst (dd_update dflt f kvs k)) = insert k (set (map fst kvs))"
  unfolding dd_update_map_fst by auto

lemma incr_single:
  assumes "\<forall>kv \<in> set cs. \<forall>e \<in> set (snd kv). length (fst e) = 1"
  shows "\<forall>kv \<in> set (incr cs cur [c]). \<forall>e \<in> set (snd kv). length (fst e) = 1"
proof -
  let ?P = "\<lambda>tr :: transitions. \<forall>e \<in> set tr. length (fst e) = 1"
  let ?f = "\<lambda>tr. dd_update 0 (\<lambda>n. n + 1) tr [c]"
  have k: "?P (?f v)" if "?P v" for v
  proof
    fix e assume "e \<in> set (?f v)"
    then have "fst e \<in> set (map fst (?f v))" by simp
    then have "fst e = [c] \<or> fst e \<in> set (map fst v)" unfolding dd_update_keys by simp
    with that show "length (fst e) = 1" by auto
  qed
  have 2: "?P (?f [])" by simp
  show ?thesis unfolding incr_def using assms 2 k by (rule dd_update_values)
qed

lemma count_loop_single:
  "count_loop cs cur gen = Inr cs' \<Longrightarrow>
   \<forall>kv \<in> set cs. \<forall>e \<in> set (snd kv). length (fst e) = 1 \<Longrightarrow>
   \<forall>kv \<in> set cs'. \<forall>e \<in> set (snd kv). length (fst e) = 1"
proof (induction cs cur gen rule: count_loop.induct)
  case (1 automaton cur)
  then show ?case by simp
next
  case (2 automaton cur gen)
  then show ?case by simp
next
  case (3 automaton cur c gen)
  from "3.prems"(2) have "\<forall>kv \<in> set (incr automaton cur [c]). \<forall>e \<in> set (snd kv). length (fst e) = 1"
    by (rule incr_single)
  with 3 show ?case by simp
qed

lemma normalize_entry_succs:
  "normalize_entry tr = Inr (succs, probs) \<Longrightarrow> succs = map fst tr"
  by (auto simp: normalize_entry_def Let_def split: sum.splits)

text \<open>On the texts of this development every item the filter yields is one character, so
  every successor of a built automaton is one character.\<close>

lemma create_automaton_single_chars:
  assumes "create_automaton order tx ic = Inr a"
  shows "single_chars a"
proof -
  from assms obtain cur gen cs where
    c: "count_loop [] cur gen = Inr cs" and n: "normalize_automaton cs = Inr a"
    by (auto simp: create_automaton_def split: sum.splits)
  from count_loop_single [OF c] have s: "\<forall>kv \<in> set cs. \<forall>e \<in> set (snd kv). length (fst e) = 1"
    by simp
  show ?thesis unfolding single_chars_def
  proof (intro ballI)
    fix e c assume e: "e \<in> set a" and cc: "c \<in> set (fst (snd e))"
    obtain k succs probs where ek: "e = (k, succs, probs)" by (cases e) auto
    from normalize_automaton_member [OF n e [unfolded ek]] obtain tr where
      tr: "(k, tr) \<in> set cs" "normalize_entry tr = Inr (succs, probs)" by blast
    from normalize_entry_succs [OF tr(2)] cc ek have "c \<in> fst ` set tr" by simp
    with s tr(1) show "length c = 1" by force
  qed
qed

section \<open>Concrete automata\<close>

lemma py_truediv_1_1: "py_truediv 1 1 = Inr 1"
  by code_simp

lemma py_truediv_1_2: "py_truediv 1 2 = Inr (1 / 2)"
  by code_simp

lemma create_automaton_aab:
  "create_automaton 1 ''aab'' False
     = Inr [(''a'', [''a'', ''b''], [1 / 2, 1 / 2]), (''b'', [''a''], [1])]"
  by (simp add: create_automaton_def next_character_def filtered_def sentinel_def
      non_printable_eq lower_def Let_def incr_def normalize_automaton_def normalize_entry_def
      py_truediv_1_1 py_truediv_1_2)

section \<open>The claim about saving and loading\<close>

lemma all_some_str: "all_some (map (str_of \<circ> PStr) xs) = Some xs"
  by (induction xs) simp_all

lemma all_some_float: "all_some (map (float_of \<circ> PFloat) xs) = Some xs"
  by (induction xs) simp_all


lemma entry_of_list:
  "entry_of (PList [PList (map PStr succs), PList (map PFloat probs)]) = Some (succs, probs)"
  by (simp add: entry_of_def all_some_str all_some_float)


lemma contents_of_automaton_value_lists: "contents_of (automaton_value_lists a) = Some a"
  unfolding automaton_value_lists_def
  by (induction a) (auto simp: entry_of_list)

lemma json_round_trip_automaton:
  "json_loads (json_dumps (automaton_value a)) = automaton_value_lists a"
  unfolding automaton_value_def automaton_value_lists_def
  by (induction a) (auto simp: comp_def)

lemma tuples_differ_from_lists:
  "a \<noteq> [] \<Longrightarrow> \<not> py_eq (automaton_value_lists a) (automaton_value a)"
  by (cases a) (auto simp: automaton_value_def automaton_value_lists_def)






section \<open>The claims about construction failures and the generator\<close>

lemma round_double_1: "round_double 1 = 1"
  by code_simp

lemma py_truediv_self: "0 < n \<Longrightarrow> py_truediv n n = Inr 1"
  by (simp add: py_truediv_def round_double_1 overflows_def pow2_def)

lemmas build_simps =
  create_automaton_def next_character_def filtered_def sentinel_def non_printable_eq
  lower_def Let_def incr_def normalize_automaton_def normalize_entry_def py_truediv_self
  eval_nat_numeral newline_def


lemma create_automaton_abcd:
  "create_automaton 3 ''abcd'' False = Inr [(''abc'', [''d''], [1]), (''bcd'', [''a''], [1])]"
  by (simp add: build_simps)



lemma create_automaton_newline_ab:
  "create_automaton 1 [newline, CHR ''a'', CHR ''b''] True
     = Inr [('' '', [''a''], [1]), (''a'', [''b''], [1]), (''b'', [[newline]], [1])]"
  by (simp add: build_simps)

lemma create_automaton_empty: "create_automaton 1 [] True = Inl TypeError"
  by (simp add: build_simps)

lemma choices_single: "choices R g [c] [1] = Inr (c, snd (rng_random R g))"
  by (simp add: choices_def accumulate_def Let_def bisect.simps split: prod.splits)

lemma repeat_none_small:
  "- (2 ^ 63) \<le> len \<Longrightarrow> len < 2 ^ 60 \<Longrightarrow> repeat_none len = Inr (replicate (nat len) None)"
  by (simp add: repeat_none_def)

lemma repeat_none_eval:
  "repeat_none 0 = Inr []"
  "repeat_none 1 = Inr [None]"
  "repeat_none 3 = Inr [None, None, None]"
  "repeat_none 4 = Inr [None, None, None, None]"
  "repeat_none (- 1) = Inr []"
  "repeat_none (- 5) = Inr []"
  by (simp_all add: repeat_none_small eval_nat_numeral)

lemma generate_fst:
  "fst (generate R float_repr p fs len order filename seed export raw ic) =
     (case obtain_automaton fs order filename raw ic of
        Inl e \<Rightarrow> Inl e
      | Inr automaton \<Rightarrow>
          (case automaton of
             [] \<Rightarrow> Inl StopIteration
           | (state, _) # _ \<Rightarrow>
               (case repeat_none len of
                  Inl e \<Rightarrow> Inl e
                | Inr res \<Rightarrow>
                    (case gen_loop R automaton len (rng_state (random_seed R seed p)) state res 0 of
                       Inl e \<Rightarrow> Inl e
                     | Inr res' \<Rightarrow> join res'))))"
  by (simp add: generate_def Let_def split: sum.splits)


lemma obtain_automaton_raw:
  "fs filename = Some (text_file tx) \<Longrightarrow>
     obtain_automaton fs order filename True ic = create_automaton order tx ic"
  by (simp add: obtain_automaton_def text_file_def)

lemma obtain_automaton_loaded:
  "fs filename = Some (json_file float_repr (automaton_value a)) \<Longrightarrow>
     obtain_automaton fs order filename False ic = Inr a"
  by (simp add: obtain_automaton_def import_automaton_def json_file_def
      json_round_trip_automaton contents_of_automaton_value_lists)


lemmas run_simps =
  generate_fst obtain_automaton_raw obtain_automaton_loaded repeat_none_eval
  gen_loop.simps choices_single eval_nat_numeral

text \<open>
  Claim C10, as amended. For an order of at least \<open>1\<close> and a training text whose filtered
  sequence has fewer characters than the order: when the sequence is empty the
  construction fails with TypeError (the priming loop appends the final \<^verbatim>\<open>None\<close>); when
  it has fewer than order minus one characters the construction fails with StopIteration
  (the generator is exhausted during priming); when it has exactly order minus one
  characters the final value completes the priming and the construction returns the empty
  automaton. The program has no InsufficientDataError.
\<close>

theorem C10_too_short_text:
  assumes "1 \<le> order" and "int (length (filtered tx ignore_case)) < order"
  shows "create_automaton order tx ignore_case =
     (if filtered tx ignore_case = [] then Inl TypeError
      else if int (length (filtered tx ignore_case)) + 1 < order then Inl StopIteration
      else Inr [])"
  using assms by (rule create_automaton_short)

theorem C10_too_short_text_witness:
  "(1::int) \<le> 3 \<and> int (length (filtered ''a'' True)) < 3 \<and>
   create_automaton 3 ''a'' True = Inl StopIteration"
proof -
  have h1: "(1::int) \<le> 3" by simp
  have h2: "int (length (filtered ''a'' True)) < 3" by (simp add: filtered_a)
  show ?thesis using h1 h2 C10_too_short_text [OF h1 h2] by (simp add: filtered_a)
qed

text \<open>
  Claim C10 as stated fails: the text \<open>a\<close> has one filtered character, fewer than the order
  \<open>2\<close>, and the construction returns the empty automaton without an error; the empty text
  with order \<open>1\<close> raises TypeError.
\<close>

theorem C10_counterexample:
  "int (length (filtered ''a'' True)) < 2 \<and> create_automaton 2 ''a'' True = Inr [] \<and>
   create_automaton 1 [] True = Inl TypeError"
  using create_automaton_short [of 2 "''a''" True]
  by (simp add: filtered_a create_automaton_empty)

















text \<open>
  Claim C5, as amended. Whenever, after any number of iterations and with an iteration
  still to run, the state of the loop has no entry in the automaton, the whole
  generation fails with the KeyError of that state: there is no fallback, no handler,
  and no output.
\<close>

theorem C5_unknown_context_raises_KeyError:
  assumes "walk R automaton g state i = Inr (state', g')"
    and "map_of automaton state' = None"
    and "index + int i < len"
  shows "gen_loop R automaton len g state res index = Inl (KeyError state')"
  using assms
proof (induction i arbitrary: g state res index)
  case 0
  then show ?case by (simp add: gen_loop_unknown)
next
  case (Suc i)
  from Suc.prems(1) obtain population weights c g1 where
    e: "map_of automaton state = Some (population, weights)"
    and ch: "choices R g population weights = Inr (c, g1)"
    and w: "walk R automaton g1 (drop 1 state @ c) i = Inr (state', g')"
    by (auto split: option.splits sum.splits)
  have "index + 1 + int i < len" using Suc.prems(3) by simp
  from Suc.IH [OF w Suc.prems(2) this]
  have "gen_loop R automaton len g1 (drop 1 state @ c) (res[nat index := Some c]) (index + 1)
      = Inl (KeyError state')" .
  moreover have "index < len" using Suc.prems(3) by simp
  ultimately show ?case using e ch by (subst gen_loop.simps) simp
qed

theorem C5_unknown_context_raises_KeyError_witness:
  "walk zero_rng [(''ab'', [''c''], [1]), (''bc'', [''a''], [1])] () ''ab'' 2 = Inr (''ca'', ()) \<and>
   map_of [(''ab'', [''c''], [1 :: rat]), (''bc'', [''a''], [1])] ''ca'' = None \<and>
   (0::int) + int 2 < 3 \<and>
   gen_loop zero_rng [(''ab'', [''c''], [1]), (''bc'', [''a''], [1])] 3 () ''ab''
     [None, None, None] 0 = Inl (KeyError ''ca'')"
proof -
  have h1: "walk zero_rng [(''ab'', [''c''], [1]), (''bc'', [''a''], [1])] () ''ab'' 2
      = Inr (''ca'', ())"
    by (simp add: eval_nat_numeral choices_single)
  have h2: "map_of [(''ab'', [''c''], [1 :: rat]), (''bc'', [''a''], [1])] ''ca'' = None"
    by simp
  have h3: "(0::int) + int 2 < 3" by simp
  show ?thesis
    using h1 h2 h3 C5_unknown_context_raises_KeyError [OF h1 h2 h3, of "[None, None, None]"]
    by simp
qed

text \<open>
  Claim C5 as stated fails: with order \<open>3\<close> on the text \<open>abcd\<close> the third lookup is of the
  state \<open>cda\<close>, which has no entry, and the call ends with the unhandled KeyError.
\<close>

theorem C5_counterexample:
  "fst (generate zero_rng repr_of_one a_process [''corpus.txt'' \<mapsto> text_file ''abcd'']
          3 3 ''corpus.txt'' None False True False) = Inl (KeyError ''cda'')"
  by (simp add: run_simps create_automaton_abcd)

lemma incr_keys: "set (map fst (incr cs cur c)) = insert cur (set (map fst cs))"
  unfolding incr_def by (rule dd_update_keys)

lemma incr_succs:
  "(\<Union>kv \<in> set (incr cs cur c). fst ` set (snd kv))
     \<subseteq> insert c (\<Union>kv \<in> set cs. fst ` set (snd kv))"
proof (induction cs)
  case Nil
  show ?case by (simp add: incr_def)
next
  case (Cons kv cs)
  obtain k tr where kv: "kv = (k, tr)" by (cases kv)
  have inner: "fst ` set (dd_update 0 (\<lambda>n. n + 1) tr c) = insert c (fst ` set tr)"
    using dd_update_keys [of 0 "\<lambda>n. n + (1::int)" tr c] by simp
  show ?case
  proof (cases "k = cur")
    case True
    then show ?thesis using inner by (auto simp: incr_def kv)
  next
    case False
    then show ?thesis using Cons.IH by (auto simp: incr_def kv)
  qed
qed

lemma count_loop_order_1:
  "count_loop cs [x] (map Some zs) = Inr cs' \<Longrightarrow>
     set (map fst cs') = set (map fst cs) \<union> (\<lambda>z. [z]) ` set (butlast (x # zs)) \<and>
     (\<Union>kv \<in> set cs'. fst ` set (snd kv))
       \<subseteq> (\<Union>kv \<in> set cs. fst ` set (snd kv)) \<union> (\<lambda>z. [z]) ` set zs"
proof (induction zs arbitrary: cs x)
  case Nil
  then show ?case by simp
next
  case (Cons z zs)
  from Cons.prems have "count_loop (incr cs [x] [z]) [z] (map Some zs) = Inr cs'" by simp
  from Cons.IH [OF this]
  have k: "set (map fst cs') =
      set (map fst (incr cs [x] [z])) \<union> (\<lambda>z. [z]) ` set (butlast (z # zs))"
    and su: "(\<Union>kv \<in> set cs'. fst ` set (snd kv))
      \<subseteq> (\<Union>kv \<in> set (incr cs [x] [z]). fst ` set (snd kv)) \<union> (\<lambda>z. [z]) ` set zs"
    by simp_all
  have "set (map fst cs') = set (map fst cs) \<union> (\<lambda>z. [z]) ` set (butlast (x # z # zs))"
    unfolding k incr_keys by auto
  moreover have "(\<Union>kv \<in> set cs'. fst ` set (snd kv))
      \<subseteq> (\<Union>kv \<in> set cs. fst ` set (snd kv)) \<union> (\<lambda>z. [z]) ` set (z # zs)"
  proof -
    let ?D = "\<Union>kv \<in> set cs. fst ` set (snd kv)"
    let ?C = "(\<lambda>z. [z]) ` set zs"
    have "(\<Union>kv \<in> set (incr cs [x] [z]). fst ` set (snd kv)) \<union> ?C \<subseteq> insert [z] ?D \<union> ?C"
      by (intro Un_mono incr_succs subset_refl)
    with su have "(\<Union>kv \<in> set cs'. fst ` set (snd kv)) \<subseteq> insert [z] ?D \<union> ?C"
      by (rule subset_trans)
    also have "insert [z] ?D \<union> ?C = ?D \<union> (\<lambda>z. [z]) ` set (z # zs)"
      by (simp only: list.set image_insert Un_insert_left Un_insert_right)
    finally show ?thesis .
  qed
  ultimately show ?case by (rule conjI)
qed

text \<open>
  With order \<open>1\<close>, when the final value of the filter is the first character it yielded,
  the states of the automaton built are the filtered characters, and every successor is
  a state.
\<close>

lemma order_1_closed:
  assumes a: "create_automaton 1 tx ic = Inr a"
    and s: "sentinel tx ic = Some (hd (filtered tx ic))"
  shows "fst ` set a = (\<lambda>z. [z]) ` set (filtered tx ic)"
    and "\<forall>e \<in> set a. \<forall>c \<in> set (fst (snd e)). c \<in> fst ` set a"
proof -
  from s have "filtered tx ic \<noteq> []" using sentinel_filtered [of tx ic] by auto
  then obtain y ys where ys: "filtered tx ic = y # ys" by (cases "filtered tx ic") auto
  have g: "next_character tx ic = Some y # map Some (ys @ [y])"
    using s by (simp add: next_character_def ys)
  from a obtain cs where c: "count_loop [] [y] (map Some (ys @ [y])) = Inr cs"
    and n: "normalize_automaton cs = Inr a"
    by (auto simp: create_automaton_def g simp del: map_append split: sum.splits)
  from count_loop_order_1 [OF c]
  have k: "set (map fst cs) = (\<lambda>z. [z]) ` set (y # ys)"
    and su: "(\<Union>kv \<in> set cs. fst ` set (snd kv)) \<subseteq> (\<lambda>z. [z]) ` set (y # ys)"
    by (auto simp: butlast_append)
  from normalize_automaton_keys [OF n] have "fst ` set a = set (map fst cs)"
    by (metis set_map)
  with k show keys: "fst ` set a = (\<lambda>z. [z]) ` set (filtered tx ic)" by (simp add: ys)
  show "\<forall>e \<in> set a. \<forall>c \<in> set (fst (snd e)). c \<in> fst ` set a"
  proof (intro ballI)
    fix e c assume e: "e \<in> set a" and cc: "c \<in> set (fst (snd e))"
    obtain st succs probs where ek: "e = (st, succs, probs)" by (cases e) auto
    from normalize_automaton_member [OF n e [unfolded ek]] obtain tr where
      tr: "(st, tr) \<in> set cs" "normalize_entry tr = Inr (succs, probs)" by blast
    from normalize_entry_succs [OF tr(2)] cc ek have "c \<in> fst ` set tr" by simp
    with tr(1) have "c \<in> (\<Union>kv \<in> set cs. fst ` set (snd kv))" by force
    with su have "c \<in> (\<lambda>z. [z]) ` set (y # ys)" by blast
    then show "c \<in> fst ` set a" unfolding keys ys .
  qed
qed

lemma gen_loop_closed:
  assumes "\<forall>e \<in> set a. \<forall>c \<in> set (fst (snd e)). c \<in> fst ` set a"
    and "\<forall>k \<in> fst ` set a. length k = 1"
    and "st \<in> fst ` set a"
  shows "gen_loop R a len g st res index \<noteq> Inl (KeyError k)"
  using assms
proof (induction R a len g st res index rule: gen_loop.induct)
  case (1 R a len g st res index)
  note closed = "1.prems"(1) and single = "1.prems"(2) and key = "1.prems"(3)
  show ?case
  proof (cases "index < len")
    case False
    then show ?thesis by (simp add: gen_loop_done)
  next
    case True
    from key obtain population weights where
      e: "map_of a st = Some (population, weights)"
      by (cases "map_of a st") (auto simp: map_of_eq_None_iff)
    show ?thesis
    proof (cases "choices R g population weights")
      case (Inl err)
      then have "err \<noteq> KeyError k"
        by (auto simp: choices_def Let_def split: option.splits if_splits prod.splits)
      with True e Inl show ?thesis by (subst gen_loop.simps) simp
    next
      case (Inr r)
      obtain c g' where r: "r = (c, g')" by (cases r)
      have m: "(st, population, weights) \<in> set a" using e by (rule map_of_SomeD)
      have "c \<in> set population" using Inr r choices_member by metis
      with m closed have ck: "c \<in> fst ` set a" by force
      from key single have "length st = 1" by blast
      then have "drop 1 st @ c = c" by simp
      with "1.IH" [OF True e refl Inr [unfolded r] refl closed single] ck
      have "gen_loop R a len g' (drop 1 st @ c) (res[nat index := Some c]) (index + 1)
          \<noteq> Inl (KeyError k)" by simp
      with True e Inr r show ?thesis by (subst gen_loop.simps) simp
    qed
  qed
qed

lemma map_err_no_KeyError:
  "(\<And>x. f x \<noteq> Inl (KeyError k)) \<Longrightarrow> map_err f xs \<noteq> Inl (KeyError k)"
  by (induction xs) (auto split: sum.splits)

lemma create_automaton_no_KeyError: "create_automaton order tx ic \<noteq> Inl (KeyError k)"
proof -
  have p: "prime n cur gen \<noteq> Inl (KeyError k)" for n cur gen
    by (induction n cur gen rule: prime.induct) auto
  have c: "count_loop cs cur gen \<noteq> Inl (KeyError k)" for cs cur gen
    by (induction cs cur gen rule: count_loop.induct) auto
  have t: "py_truediv v T \<noteq> Inl (KeyError k)" for v T
    by (auto simp: py_truediv_def Let_def)
  have ne: "normalize_entry tr \<noteq> Inl (KeyError k)" for tr
    using map_err_no_KeyError [of "\<lambda>v. py_truediv v (sum_list (map snd tr))" k "map snd tr"] t
    by (auto simp: normalize_entry_def Let_def split: sum.splits)
  have na: "normalize_automaton cs \<noteq> Inl (KeyError k)" for cs
    unfolding normalize_automaton_def
    by (rule map_err_no_KeyError) (auto split: sum.splits simp: ne)
  from p c na show ?thesis
    by (auto simp: create_automaton_def split: sum.splits)
qed

text \<open>Then no lookup of a generation fails, whatever the length, the seed and the
  generator.\<close>

lemma order_1_no_unknown_context:
  assumes f: "fs filename = Some (text_file tx)"
    and s: "sentinel tx ic = Some (hd (filtered tx ic))"
  shows "fst (generate R float_repr p fs len 1 filename seed export True ic)
     \<noteq> Inl (KeyError k)"
proof (cases "create_automaton 1 tx ic")
  case (Inl e)
  have "e \<noteq> KeyError k" using Inl create_automaton_no_KeyError [of 1 tx ic k] by auto
  with Inl show ?thesis by (simp add: generate_fst obtain_automaton_raw [of fs filename tx] f)
next
  case (Inr a)
  note c = order_1_closed [OF Inr s]
  have single: "\<forall>k \<in> fst ` set a. length k = 1" unfolding c(1) by auto
  show ?thesis
  proof (cases a)
    case Nil
    with Inr show ?thesis by (simp add: generate_fst obtain_automaton_raw [of fs filename tx] f)
  next
    case (Cons e a')
    obtain st v where e: "e = (st, v)" by (cases e)
    have "st \<in> fst ` set a" using Cons e by force
    from gen_loop_closed [OF c(2) single this]
    have "gen_loop R a len (rng_state (random_seed R seed p)) st res 0
        \<noteq> Inl (KeyError k)" for res .
    moreover have "join r \<noteq> Inl (KeyError k)" for r
      by (induction r rule: join.induct) (auto split: sum.splits)
    moreover have "repeat_none len \<noteq> Inl (KeyError k)"
      by (simp add: repeat_none_def)
    ultimately show ?thesis using Inr Cons e
      by (auto simp: generate_fst obtain_automaton_raw [of fs filename tx] f split: sum.splits)
  qed
qed

lemma round_double_lower:
  assumes x: "pow2 (- 1022) \<le> x"
  shows "pow2 (- 1022) \<le> round_double x"
proof -
  have xp: "0 < x" using x pow2_pos [of "- 1022"] by linarith
  define e where "e = ilog2 x"
  have lo: "pow2 e \<le> x" and hi: "x < pow2 (e + 1)"
    using ilog2_bounds [OF xp] by (simp_all add: e_def)
  have e: "- 1022 \<le> e"
  proof (rule ccontr)
    assume "\<not> - 1022 \<le> e"
    then have "e + 1 \<le> - 1022" by simp
    then have "pow2 (e + 1) \<le> pow2 (- 1022)" by (rule pow2_mono)
    with hi x show False by linarith
  qed
  define k where "k = e - 52"
  define y where "y = x / pow2 k"
  define m where "m = round_half_even y"
  have kp: "0 < pow2 k" by (rule pow2_pos)
  have mx: "max (ilog2 x - 52) (- 1074) = k" using e by (simp add: k_def e_def)
  have ax: "\<bar>x\<bar> = x" using xp by simp
  have rd: "round_double x = of_int m * pow2 k"
    using xp by (simp add: round_double_def Let_def ax mx m_def y_def)
  have xy: "x = y * pow2 k" using kp by (simp add: y_def)
  have near: "\<bar>of_int m - y\<bar> \<le> 1 / 2" unfolding m_def by (rule round_half_even_near)
  have p52: "pow2 52 = of_int (2 ^ 52)" by (simp add: pow2_def)
  have "pow2 52 * pow2 k = pow2 e" by (simp add: pow2_add [symmetric] k_def)
  then have "pow2 52 * pow2 k \<le> y * pow2 k" using lo xy by simp
  then have "pow2 52 \<le> y" using kp by simp
  with near have "(of_int (2 ^ 52) :: rat) - 1 < of_int m" unfolding p52 by linarith
  then have "(of_int (2 ^ 52 - 1) :: rat) < of_int m" by simp
  then have "2 ^ 52 - 1 < m" by (simp only: of_int_less_iff)
  then have "2 ^ 52 \<le> m" by simp
  then have "(of_int (2 ^ 52) :: rat) \<le> of_int m" by (simp only: of_int_le_iff)
  then have "pow2 52 \<le> of_int m" by (simp only: p52)
  then have "pow2 52 * pow2 k \<le> of_int m * pow2 k" using kp by simp
  then have "pow2 e \<le> round_double x"
    by (simp add: rd pow2_add [symmetric] k_def)
  moreover have "pow2 (- 1022) \<le> pow2 e" using e by (rule pow2_mono)
  ultimately show ?thesis by linarith
qed

lemma round_double_upper:
  assumes x: "pow2 (- 1022) \<le> x"
  shows "round_double x \<le> 2 * x"
proof -
  have xp: "0 < x" using x pow2_pos [of "- 1022"] by linarith
  have "pow2 (- 53) \<le> pow2 0" by (rule pow2_mono) simp
  then have "pow2 (- 53) \<le> 1" by (simp add: pow2_def)
  then have "x * pow2 (- 53) \<le> x * 1" using xp by (intro mult_left_mono) simp_all
  with round_double_normal(1) [OF x] show ?thesis by linarith
qed

lemma py_truediv_range:
  assumes v: "0 < v" and vT: "v \<le> T" and T: "of_int T \<le> pow2 1022"
    and p: "py_truediv v T = Inr p"
  shows "pow2 (- 1022) \<le> p \<and> p \<le> 2"
proof -
  define x :: rat where "x = of_int v / of_int T"
  have Tp: "0 < T" using v vT by simp
  have rT: "0 < (of_int T :: rat)" using Tp by simp
  have "pow2 (- 1022) * of_int T \<le> pow2 (- 1022) * pow2 1022"
    using T pow2_pos [of "- 1022"] by (intro mult_left_mono) simp_all
  also have "\<dots> = 1" by (simp add: pow2_add [symmetric]) (simp add: pow2_def)
  also have "\<dots> \<le> of_int v" using v by simp
  finally have x: "pow2 (- 1022) \<le> x" using rT by (simp add: x_def pos_le_divide_eq)
  have x1: "x \<le> 1" using vT rT by (simp add: x_def)
  from p Tp have "p = round_double x"
    by (auto simp: py_truediv_def Let_def x_def split: if_splits)
  with round_double_lower [OF x] round_double_upper [OF x] x1 show ?thesis by simp
qed

lemma accumulate_from_ok:
  "pow2 (- 1022) \<le> tot \<Longrightarrow> tot \<le> B \<Longrightarrow>
   \<forall>w \<in> set ws. pow2 (- 1022) \<le> w \<and> w \<le> 2 \<Longrightarrow>
   2 ^ length ws * (B + 4) \<le> pow2 1023 \<Longrightarrow>
   \<exists>cum. accumulate_from tot ws = Some cum \<and> length cum = length ws \<and>
         (\<forall>c \<in> set cum. 0 < c)"
proof (induction ws arbitrary: tot B)
  case Nil
  show ?case by simp
next
  case (Cons w ws)
  define t where "t = round_double (tot + w)"
  have w: "pow2 (- 1022) \<le> w" "w \<le> 2" using Cons.prems(3) by simp_all
  have p0: "0 < pow2 (- 1022)" by (rule pow2_pos)
  have s: "pow2 (- 1022) \<le> tot + w" using Cons.prems(1) w(1) p0 by linarith
  have lo: "pow2 (- 1022) \<le> t" unfolding t_def using s by (rule round_double_lower)
  have "t \<le> 2 * (tot + w)" unfolding t_def using s by (rule round_double_upper)
  moreover have "2 * (tot + w) \<le> 2 * (B + 2)"
    using Cons.prems(2) w(2) by (intro mult_left_mono add_mono) simp_all
  ultimately have up: "t \<le> 2 * B + 4" by (simp add: algebra_simps)
  have Bp: "0 < B" using Cons.prems(1,2) p0 by linarith
  have n1: "(1::rat) \<le> 2 ^ length ws" by simp
  have "2 * B + 4 \<le> 1 * (2 * B + 8)" by simp
  also have "\<dots> \<le> 2 ^ length ws * (2 * B + 8)"
    using n1 Bp by (intro mult_right_mono) simp_all
  also have "\<dots> = 2 ^ length (w # ws) * (B + 4)" by (simp add: algebra_simps)
  also have "\<dots> \<le> pow2 1023" by (rule Cons.prems(4))
  finally have b: "2 * B + 4 \<le> pow2 1023" .
  have "pow2 1023 < pow2 1023 * 2" using pow2_pos [of 1023] by simp
  also have "\<dots> = pow2 1024" using pow2_add [of 1023 1] by (simp add: pow2_def)
  finally have "t < pow2 1024" using up b by linarith
  moreover have "0 < t" using lo p0 by linarith
  ultimately have no: "\<not> overflows t" by (simp add: overflows_def)
  have "2 ^ length ws * ((2 * B + 4) + 4) = 2 ^ length (w # ws) * (B + 4)"
    by (simp add: algebra_simps)
  then have "2 ^ length ws * ((2 * B + 4) + 4) \<le> pow2 1023"
    using Cons.prems(4) by (simp only:)
  from Cons.IH [OF lo up _ this] Cons.prems(3) obtain cum where
    "accumulate_from t ws = Some cum" "length cum = length ws" "\<forall>c \<in> set cum. 0 < c"
    by auto
  with no \<open>0 < t\<close> show ?case by (simp add: t_def [symmetric] Let_def)
qed

lemma choices_ok:
  assumes ne: "population \<noteq> []" and len: "length weights = length population"
    and n: "length population \<le> 256"
    and w: "\<forall>w \<in> set weights. pow2 (- 1022) \<le> w \<and> w \<le> 2"
  shows "\<exists>c g'. choices R g population weights = Inr (c, g')"
proof -
  from ne len obtain p ps where ws: "weights = p # ps" by (cases weights) auto
  have p: "pow2 (- 1022) \<le> p" "p \<le> 2" and ps: "\<forall>w \<in> set ps. pow2 (- 1022) \<le> w \<and> w \<le> 2"
    using w by (simp_all add: ws)
  have l: "length ps \<le> 255" using n len by (simp add: ws)
  have "(2::rat) ^ length ps * (2 + 4) \<le> 2 ^ length ps * 2 ^ 3" by simp
  also have "\<dots> = pow2 (int (length ps) + 3)" by (simp add: pow2_def nat_add_distrib power_add)
  also have "\<dots> \<le> pow2 1023" using l by (intro pow2_mono) simp
  finally have b: "2 ^ length ps * (2 + 4) \<le> pow2 1023" .
  from accumulate_from_ok [OF p(1) p(2) ps b] obtain cum where
    cum: "accumulate_from p ps = Some cum" "length cum = length ps" "\<forall>c \<in> set cum. 0 < c"
    by blast
  have p0: "0 < p" using p(1) pow2_pos [of "- 1022"] by linarith
  have a: "accumulate weights = Some (p # cum)" by (simp add: accumulate_def ws cum(1))
  have "last (p # cum) \<in> set (p # cum)" by (rule last_in_set) simp
  then have "0 < last (p # cum)" using p0 cum(3) by auto
  then show ?thesis
    using a cum(2) len ws
    by (cases "rng_random R g") (simp add: choices_def Let_def)
qed

lemma dd_update_distinct:
  "distinct (map fst kvs) \<Longrightarrow> distinct (map fst (dd_update dflt f kvs k))"
  by (simp add: dd_update_map_fst)

lemma incr_distinct:
  assumes "\<forall>kv \<in> set cs. distinct (map fst (snd kv))"
  shows "\<forall>kv \<in> set (incr cs cur c). distinct (map fst (snd kv))"
proof -
  let ?P = "\<lambda>tr :: transitions. distinct (map fst tr)"
  let ?f = "\<lambda>tr. dd_update 0 (\<lambda>n. n + 1) tr c"
  have 2: "?P (?f [])" by simp
  have 3: "?P (?f v)" if "?P v" for v using that by (rule dd_update_distinct)
  show ?thesis unfolding incr_def using assms 2 3 by (rule dd_update_values)
qed

lemma count_loop_distinct:
  "count_loop cs cur gen = Inr cs' \<Longrightarrow>
   \<forall>kv \<in> set cs. distinct (map fst (snd kv)) \<Longrightarrow>
   \<forall>kv \<in> set cs'. distinct (map fst (snd kv))"
proof (induction cs cur gen rule: count_loop.induct)
  case (1 automaton cur)
  then show ?case by simp
next
  case (2 automaton cur gen)
  then show ?case by simp
next
  case (3 automaton cur c gen)
  from "3.prems"(2) have "\<forall>kv \<in> set (incr automaton cur [c]). distinct (map fst (snd kv))"
    by (rule incr_distinct)
  with 3 show ?case by simp
qed

lemma single_distinct_length:
  assumes d: "distinct (xs :: string list)" and s: "\<forall>c \<in> set xs. length c = 1"
  shows "length xs \<le> 256"
proof -
  have "set xs \<subseteq> (\<lambda>z. [z]) ` (UNIV :: char set)"
  proof
    fix c assume "c \<in> set xs"
    with s have "length c = 1" by blast
    then obtain z where "c = [z]" by (cases c) auto
    then show "c \<in> (\<lambda>z. [z]) ` UNIV" by blast
  qed
  then have "card (set xs) \<le> card ((\<lambda>z. [z]) ` (UNIV :: char set))"
    by (intro card_mono) simp_all
  also have "\<dots> \<le> card (UNIV :: char set)" by (rule card_image_le) simp
  also have "\<dots> = 256" by (rule card_UNIV_char)
  finally show ?thesis using d by (simp add: distinct_card)
qed

lemma create_automaton_table:
  assumes "create_automaton order tx ic = Inr a"
  shows "\<exists>cs. normalize_automaton cs = Inr a \<and> well_counted cs \<and>
           table_total cs \<le> int (length tx) + 1 \<and>
           (\<forall>kv \<in> set cs. \<forall>e \<in> set (snd kv). length (fst e) = 1) \<and>
           (\<forall>kv \<in> set cs. distinct (map fst (snd kv)))"
proof -
  from assms obtain cur gen cs where
    p: "prime (nat order) [] (next_character tx ic) = Inr (cur, gen)"
    and c: "count_loop [] cur gen = Inr cs"
    and n: "normalize_automaton cs = Inr a"
    by (auto simp: create_automaton_def split: sum.splits)
  have w0: "well_counted []" by (simp add: well_counted_def)
  from count_loop_invariant [OF c w0]
  have w: "well_counted cs" and t: "table_total cs = int (length gen)"
    by (simp_all add: table_total_def)
  have "length gen \<le> length (next_character tx ic)" using p by (rule prime_length)
  also have "\<dots> \<le> length tx + 1"
    using filtered_length [of tx ic] by (simp add: next_character_def)
  finally have "table_total cs \<le> int (length tx) + 1" using t by simp
  moreover from count_loop_single [OF c]
  have "\<forall>kv \<in> set cs. \<forall>e \<in> set (snd kv). length (fst e) = 1" by simp
  moreover from count_loop_distinct [OF c]
  have "\<forall>kv \<in> set cs. distinct (map fst (snd kv))" by simp
  ultimately show ?thesis using n w by blast
qed

lemma built_entry_range:
  assumes a: "create_automaton order tx ic = Inr a" and len: "length tx < 2 ^ 63"
    and m: "(k, succs, probs) \<in> set a"
  shows "succs \<noteq> [] \<and> length succs \<le> 256 \<and> length probs = length succs \<and>
         (\<forall>p \<in> set probs. pow2 (- 1022) \<le> p \<and> p \<le> 2)"
proof -
  from create_automaton_table [OF a] obtain cs where
    n: "normalize_automaton cs = Inr a" and w: "well_counted cs"
    and t: "table_total cs \<le> int (length tx) + 1"
    and s: "\<forall>kv \<in> set cs. \<forall>e \<in> set (snd kv). length (fst e) = 1"
    and d: "\<forall>kv \<in> set cs. distinct (map fst (snd kv))" by blast
  from normalize_automaton_member [OF n m] obtain tr where
    tr: "(k, tr) \<in> set cs" "normalize_entry tr = Inr (succs, probs)" by blast
  define T where "T = sum_list (map snd tr)"
  from w tr(1) have ne: "tr \<noteq> []" and pos: "\<forall>n \<in> set (map snd tr). 0 < n"
    by (auto simp: well_counted_def)
  have "T \<le> table_total cs" unfolding T_def using w tr(1) by (rule entry_le_table_total)
  with t len have "T \<le> 2 ^ 63" by simp
  then have "(of_int T :: rat) \<le> of_int (2 ^ 63)" by (simp only: of_int_le_iff)
  also have "\<dots> = pow2 63" by (simp add: pow2_def)
  also have "\<dots> \<le> pow2 1022" by (rule pow2_mono) simp
  finally have Tb: "of_int T \<le> pow2 1022" .
  have nonneg: "\<forall>x \<in> set (map snd tr). 0 \<le> x" using pos by auto
  have le: "\<forall>v \<in> set (map snd tr). 0 < v \<and> v \<le> T"
    using pos le_sum_list_int [OF nonneg] by (auto simp: T_def)
  have succs: "succs = map fst tr" using tr(2) by (rule normalize_entry_succs)
  from tr(2) have me: "map_err (\<lambda>v. py_truediv v T) (map snd tr) = Inr probs"
    by (auto simp: normalize_entry_def Let_def T_def split: sum.splits)
  have l: "length probs = length succs"
    using map_err_Inr [OF me] by (auto simp: succs dest: list_all2_lengthD)
  have r: "\<forall>p \<in> set probs. pow2 (- 1022) \<le> p \<and> p \<le> 2"
  proof
    fix p assume "p \<in> set probs"
    from map_err_member [OF me this] obtain v where
      v: "v \<in> set (map snd tr)" "py_truediv v T = Inr p" by blast
    from le v(1) have "0 < v" "v \<le> T" by auto
    then show "pow2 (- 1022) \<le> p \<and> p \<le> 2" using Tb v(2) by (rule py_truediv_range)
  qed
  have "distinct succs" using d tr(1) by (force simp: succs)
  moreover have "\<forall>c \<in> set succs. length c = 1" using s tr(1) by (force simp: succs)
  ultimately have "length succs \<le> 256" by (rule single_distinct_length)
  moreover have "succs \<noteq> []" using ne by (simp add: succs)
  ultimately show ?thesis using l r by simp
qed

lemma built_entry_choices:
  assumes "create_automaton order tx ic = Inr a" and "length tx < 2 ^ 63"
    and "(k, succs, probs) \<in> set a"
  shows "\<exists>c g'. choices R g succs probs = Inr (c, g')"
  using built_entry_range [OF assms] by (intro choices_ok) simp_all

lemma gen_loop_total:
  assumes "\<forall>e \<in> set a. \<forall>c \<in> set (fst (snd e)). c \<in> fst ` set a"
    and "\<forall>k \<in> fst ` set a. length k = 1"
    and "\<forall>e \<in> set a. \<forall>g. \<exists>c g'. choices R g (fst (snd e)) (snd (snd e)) = Inr (c, g')"
    and "st \<in> fst ` set a"
  shows "\<exists>res'. gen_loop R a len g st res index = Inr res'"
  using assms
proof (induction R a len g st res index rule: gen_loop.induct)
  case (1 R a len g st res index)
  note closed = "1.prems"(1) and single = "1.prems"(2) and good = "1.prems"(3)
    and key = "1.prems"(4)
  show ?case
  proof (cases "index < len")
    case False
    then show ?thesis by (simp add: gen_loop_done)
  next
    case True
    from key obtain population weights where
      e: "map_of a st = Some (population, weights)"
      by (cases "map_of a st") (auto simp: map_of_eq_None_iff)
    have m: "(st, population, weights) \<in> set a" using e by (rule map_of_SomeD)
    with good obtain c g' where ch: "choices R g population weights = Inr (c, g')"
      by force
    have "c \<in> set population" using ch by (rule choices_member)
    with m closed have ck: "c \<in> fst ` set a" by force
    from key single have "length st = 1" by blast
    then have "drop 1 st @ c = c" by simp
    with "1.IH" [OF True e refl ch refl closed single good] ck
    obtain res' where
      "gen_loop R a len g' (drop 1 st @ c) (res[nat index := Some c]) (index + 1) = Inr res'"
      by auto
    with True e ch show ?thesis by (subst gen_loop.simps) simp
  qed
qed

text \<open>
  With order \<open>1\<close>, on a text whose final value is the first character yielded, and with a
  length below \<open>2\<^sup>6\<^sup>0\<close>, \<^verbatim>\<open>generate\<close> returns a string of the requested length, whatever
  the seed and the generator: every lookup succeeds and \<^verbatim>\<open>random.choices\<close> accepts every
  entry.
\<close>

lemma order_1_generates:
  assumes f: "fs filename = Some (text_file tx)"
    and s: "sentinel tx ic = Some (hd (filtered tx ic))" and len: "length tx < 2 ^ 63"
    and n: "- (2 ^ 63) \<le> n" "n < 2 ^ 60"
  shows "\<exists>out. fst (generate R float_repr p fs n 1 filename seed export True ic) = Inr out \<and>
           length out = nat n"
proof -
  have ne: "filtered tx ic \<noteq> []" using s sentinel_filtered [of tx ic] by auto
  then obtain y ys where ys: "filtered tx ic = y # ys" by (cases "filtered tx ic") auto
  have g: "next_character tx ic = Some y # map Some (ys @ [y])"
    using s by (simp add: next_character_def ys)
  from count_loop_total [of "[]" "[y]" "ys @ [y]"] obtain cs where
    cs: "count_loop [] [y] (map Some (ys @ [y])) = Inr cs" "cs \<noteq> []" by auto
  have w0: "well_counted []" by (simp add: well_counted_def)
  from count_loop_invariant [OF cs(1) w0] have "well_counted cs" by simp
  from normalize_automaton_total [OF this] obtain a where n': "normalize_automaton cs = Inr a"
    by blast
  have a: "create_automaton 1 tx ic = Inr a"
    by (simp add: create_automaton_def g cs(1) n' del: map_append)
  from normalize_automaton_keys [OF n'] cs(2) obtain e a' where a': "a = e # a'"
    by (cases a) auto
  obtain st v where e: "e = (st, v)" by (cases e)
  note c = order_1_closed [OF a s]
  have single: "\<forall>k \<in> fst ` set a. length k = 1" unfolding c(1) by auto
  have good: "\<forall>e \<in> set a. \<forall>g. \<exists>c g'. choices R g (fst (snd e)) (snd (snd e)) = Inr (c, g')"
  proof (intro ballI allI)
    fix e g assume "e \<in> set a"
    then have "(fst e, fst (snd e), snd (snd e)) \<in> set a" by simp
    from built_entry_choices [OF a len this]
    show "\<exists>c g'. choices R g (fst (snd e)) (snd (snd e)) = Inr (c, g')" .
  qed
  have "st \<in> fst ` set a" using a' e by force
  from gen_loop_total [OF c(2) single good this] obtain res where
    l: "gen_loop R a n (rng_state (random_seed R seed p)) st (replicate (nat n) None) 0 = Inr res"
    by blast
  from gen_loop_filled [OF l create_automaton_single_chars [OF a]] have
    f': "length res = nat n" "\<forall>i < nat n. \<exists>c. res ! i = Some c \<and> length c = 1"
    by simp_all
  from join_filled [of res] f' obtain out where "join res = Inr out" "length out = nat n"
    by auto
  then show ?thesis using a a' e l
    by (simp add: generate_fst obtain_automaton_raw [of fs filename tx] f repeat_none_small [OF n])
qed




text \<open>
  Claim C6 at the text newline, a, b with order \<open>1\<close>: the automaton built has the newline
  as a successor of the state \<open>b\<close>, and the newline is no state of it; the fourth lookup
  of a generation raises KeyError. The newline is the final value of the filter, stored
  in \<^verbatim>\<open>first_char\<close> where the filter yielded a space. (For every text of this
  development whose final value is the first character yielded,
  \<open>order_1_no_unknown_context\<close> shows what the claim says.)
\<close>

theorem C6_newline_successor_is_no_state:
  "create_automaton 1 [newline, CHR ''a'', CHR ''b''] True
     = Inr [('' '', [''a''], [1]), (''a'', [''b''], [1]), (''b'', [[newline]], [1])] \<and>
   fst (generate zero_rng repr_of_one a_process
          [''corpus.txt'' \<mapsto> text_file [newline, CHR ''a'', CHR ''b'']]
          4 1 ''corpus.txt'' None False True True)
     = Inl (KeyError [newline])"
  by (simp add: run_simps create_automaton_newline_ab) (simp add: newline_def)

lemma round_double_0: "round_double 0 = 0"
  by (simp add: round_double_def)

lemma round_double_3_4: "round_double (3 / 4) = 3 / 4"
  by code_simp

lemma overflows_1: "\<not> overflows 1"
  by (simp add: overflows_def pow2_def)

text \<open>Without a seed the result follows the system's entropy: the model of the call is
  not deterministic by construction.\<close>

lemma generate_unseeded_follows_entropy:
  "fst (generate echo_rng float_repr \<lparr>rng_state = 0, os_entropy = 0\<rparr>
          [''json/corpus.json'' \<mapsto>
             json_file float_repr (automaton_value [(''a'', [''a'', ''b''], [1 / 2, 1 / 2])])]
          1 1 ''json/corpus.json'' None False False False) = Inr ''a'' \<and>
   fst (generate echo_rng float_repr \<lparr>rng_state = 0, os_entropy = 3 / 4\<rparr>
          [''json/corpus.json'' \<mapsto>
             json_file float_repr (automaton_value [(''a'', [''a'', ''b''], [1 / 2, 1 / 2])])]
          1 1 ''json/corpus.json'' None False False False) = Inr ''b''"
  by (simp add: generate_fst obtain_automaton_loaded repeat_none_eval random_seed_def
      echo_rng_def gen_loop.simps
      choices_def accumulate_def Let_def round_double_1 round_double_0 round_double_3_4
      overflows_1 bisect.simps)

section \<open>The claim about the frequencies\<close>

lemma bernoulli_upper:
  fixes u :: rat
  assumes u: "0 \<le> u"
  shows "2 * of_nat n * u \<le> 1 \<Longrightarrow> (1 + u) ^ n \<le> 1 + 2 * of_nat n * u"
proof (induction n)
  case 0
  show ?case by simp
next
  case (Suc n)
  have nu: "2 * of_nat n * u \<le> 1" using Suc.prems u by (simp add: algebra_simps)
  have ih: "(1 + u) ^ n \<le> 1 + 2 * of_nat n * u" using Suc.IH nu by simp
  have "(1 + u) ^ Suc n = (1 + u) ^ n * (1 + u)" by simp
  also have "\<dots> \<le> (1 + 2 * of_nat n * u) * (1 + u)"
    using ih u by (intro mult_right_mono) simp_all
  also have "\<dots> = 1 + 2 * of_nat n * u + u + (2 * of_nat n * u) * u"
    by (simp add: algebra_simps)
  also have "\<dots> \<le> 1 + 2 * of_nat n * u + u + 1 * u"
    using nu u by (intro add_left_mono mult_right_mono) simp_all
  also have "\<dots> = 1 + 2 * of_nat (Suc n) * u" by (simp add: algebra_simps)
  finally show ?case .
qed

lemma float_sum_error:
  "0 \<le> acc \<Longrightarrow> \<forall>p \<in> set ps. pow2 (- 1022) \<le> p \<Longrightarrow>
   \<bar>foldl (\<lambda>s p. round_double (s + p)) acc ps - (acc + sum_list ps)\<bar>
     \<le> ((1 + pow2 (- 53)) ^ length ps - 1) * (acc + sum_list ps)"
proof (induction ps arbitrary: acc)
  case Nil
  show ?case by simp
next
  case (Cons p ps)
  define u where "u = pow2 (- 53)"
  define q where "q = 1 + u"
  define x where "x = acc + p"
  define a' where "a' = round_double x"
  define sg where "sg = sum_list ps"
  define K where "K = q ^ length ps - 1"
  define F where "F = foldl (\<lambda>s p. round_double (s + p)) a' ps"
  have up: "0 < u" unfolding u_def by (rule pow2_pos)
  have q1: "1 \<le> q" using up by (simp add: q_def)
  have p0: "0 < pow2 (- 1022)" by (rule pow2_pos)
  have pl: "pow2 (- 1022) \<le> p" and rest: "\<forall>p \<in> set ps. pow2 (- 1022) \<le> p"
    using Cons.prems(2) by simp_all
  have xl: "pow2 (- 1022) \<le> x" using Cons.prems(1) pl by (simp add: x_def)
  have xp: "0 < x" using xl p0 by linarith
  have d: "\<bar>a' - x\<bar> \<le> x * u" unfolding a'_def u_def using xl by (rule round_double_normal)
  have a0: "0 \<le> a'" unfolding a'_def using round_double_normal(2) [OF xl] by simp
  have sg0: "0 \<le> sg" unfolding sg_def using rest p0
    by (intro sum_list_nonneg) force
  have K0: "0 \<le> K" unfolding K_def using q1 by simp
  have A: "\<bar>F - (a' + sg)\<bar> \<le> K * (a' + sg)"
    using Cons.IH [OF a0 rest] by (simp add: F_def sg_def K_def q_def u_def)
  have "a' \<le> q * x" using d by (simp add: q_def algebra_simps abs_le_iff)
  moreover have "1 * sg \<le> q * sg" using q1 sg0 by (intro mult_right_mono) simp_all
  ultimately have "a' + sg \<le> q * (x + sg)" by (simp add: algebra_simps)
  then have B: "K * (a' + sg) \<le> K * (q * (x + sg))" using K0 by (rule mult_left_mono)
  have "0 \<le> u * sg" using up sg0 by simp
  then have C: "\<bar>a' - x\<bar> \<le> u * (x + sg)" using d by (simp add: algebra_simps)
  have D: "K * (q * (x + sg)) + u * (x + sg) = (q ^ Suc (length ps) - 1) * (x + sg)"
    by (simp add: K_def q_def algebra_simps)
  have "\<bar>F - (x + sg)\<bar> \<le> \<bar>F - (a' + sg)\<bar> + \<bar>a' - x\<bar>" by linarith
  also have "\<dots> \<le> K * (q * (x + sg)) + u * (x + sg)" using A B C by linarith
  finally have "\<bar>F - (x + sg)\<bar> \<le> (q ^ Suc (length ps) - 1) * (x + sg)" unfolding D .
  then show ?case
    by (simp add: F_def a'_def x_def sg_def q_def u_def add.assoc)
qed

lemma float_sum_near:
  assumes r: "\<forall>p \<in> set ps. pow2 (- 1022) \<le> p" and n: "length ps \<le> 256"
    and s: "\<bar>sum_list ps - 1\<bar> \<le> pow2 (- 53)"
  shows "\<bar>float_sum ps - 1\<bar> \<le> 1 / 10 ^ 9"
proof -
  define u where "u = pow2 (- 53)"
  define S where "S = sum_list ps"
  have u: "u = 1 / 2 ^ 53" by (simp add: u_def pow2_def)
  have up: "0 \<le> u" by (simp add: u)
  have "2 * of_nat (length ps) * u \<le> 2 * of_nat 256 * u"
    using n up by (intro mult_right_mono mult_left_mono) simp_all
  also have "\<dots> = 1 / 2 ^ 44" by (simp add: u)
  finally have nu: "2 * of_nat (length ps) * u \<le> 1 / 2 ^ 44" .
  then have "2 * of_nat (length ps) * u \<le> 1" by simp
  from bernoulli_upper [OF up this] nu
  have K: "(1 + u) ^ length ps - 1 \<le> 1 / 2 ^ 44" by linarith
  have K0: "0 \<le> (1 + u) ^ length ps - 1" using up by simp
  have s': "\<bar>S - 1\<bar> \<le> 1 / 2 ^ 53" using s by (simp only: S_def u_def [symmetric] u)
  have "(1::rat) / 2 ^ 53 \<le> 1" by simp
  with s' have S2: "0 \<le> S" "S \<le> 2" by linarith+
  from float_sum_error [of 0 ps] r
  have "\<bar>float_sum ps - S\<bar> \<le> ((1 + u) ^ length ps - 1) * S"
    by (simp add: float_sum_def S_def u_def)
  also have "\<dots> \<le> (1 / 2 ^ 44) * 2"
    using K K0 S2 by (intro mult_mono) simp_all
  finally have "\<bar>float_sum ps - S\<bar> \<le> 1 / 2 ^ 43" by simp
  moreover note s'
  ultimately have "\<bar>float_sum ps - 1\<bar> \<le> 1 / 2 ^ 43 + 1 / 2 ^ 53" by linarith
  also have "\<dots> \<le> 1 / 10 ^ 9" by simp
  finally show ?thesis .
qed

text \<open>
  Claim C1. For every automaton that \<^verbatim>\<open>create_automaton\<close> returns (through
  \<^verbatim>\<open>normalize_automaton\<close>), for any order and any training text (a Python string has fewer
  than \<open>2\<^sup>6\<^sup>3\<close> characters), and for every state of it: the list of successors and the list
  of frequencies have the same length, every frequency is strictly positive, and the
  frequencies, which are the doubles nearest to the exact quotients, sum to \<open>1\<close> within
  \<open>10\<^sup>-\<^sup>9\<close>, both as an exact sum of the doubles and as the sum a loop of floating-point
  additions computes.
\<close>

theorem C1_frequencies_normalized:
  assumes "create_automaton order tx ignore_case = Inr a"
    and "length tx < 2 ^ 63"
    and "(k, succs, probs) \<in> set a"
  shows "length succs = length probs \<and> (\<forall>p \<in> set probs. 0 < p) \<and>
         \<bar>sum_list probs - 1\<bar> \<le> 1 / 10 ^ 9 \<and> \<bar>float_sum probs - 1\<bar> \<le> 1 / 10 ^ 9"
proof -
  from built_entry [OF assms]
  have l: "length succs = length probs" and p: "\<forall>p \<in> set probs. 0 < p"
    and s: "\<bar>sum_list probs - 1\<bar> \<le> pow2 (- 53)" by simp_all
  from built_entry_range [OF assms]
  have n: "length probs \<le> 256" and r: "\<forall>p \<in> set probs. pow2 (- 1022) \<le> p" by simp_all
  have "\<bar>float_sum probs - 1\<bar> \<le> 1 / 10 ^ 9" using r n s by (rule float_sum_near)
  moreover have "\<bar>sum_list probs - 1\<bar> \<le> 1 / 10 ^ 9" using s pow2_m53_small by linarith
  ultimately show ?thesis using l p by simp
qed

theorem C1_frequencies_normalized_witness:
  "create_automaton 1 ''aab'' False
     = Inr [(''a'', [''a'', ''b''], [1 / 2, 1 / 2]), (''b'', [''a''], [1])] \<and>
   length ''aab'' < (2::nat) ^ 63 \<and>
   (''a'', [''a'', ''b''], [1 / 2, 1 / 2 :: rat])
     \<in> set [(''a'', [''a'', ''b''], [1 / 2, 1 / 2]), (''b'', [''a''], [1])] \<and>
   length [''a'', ''b''] = length [1 / 2, 1 / 2 :: rat] \<and>
   list_all (\<lambda>p. 0 < p) [1 / 2, 1 / 2 :: rat] \<and>
   \<bar>sum_list [1 / 2, 1 / 2 :: rat] - 1\<bar> \<le> 1 / 10 ^ 9 \<and>
   \<bar>float_sum [1 / 2, 1 / 2] - 1\<bar> \<le> 1 / 10 ^ 9"
proof -
  have h1: "create_automaton 1 ''aab'' False
     = Inr [(''a'', [''a'', ''b''], [1 / 2, 1 / 2]), (''b'', [''a''], [1])]"
    by (rule create_automaton_aab)
  have h2: "length ''aab'' < (2::nat) ^ 63" by simp
  have h3: "(''a'', [''a'', ''b''], [1 / 2, 1 / 2 :: rat])
      \<in> set [(''a'', [''a'', ''b''], [1 / 2, 1 / 2]), (''b'', [''a''], [1])]" by simp
  show ?thesis using h1 h2 h3 C1_frequencies_normalized [OF h1 h2 h3] by simp
qed

end
